theory Spec2Isabelle
  imports Main "HOL-Library.AList" "HOL-Library.Product_Lexorder"
begin

section \<open>Python values used by \<^verbatim>\<open>main8.py\<close>\<close>

text \<open>
  A Python \<^verbatim>\<open>str\<close> is a sequence of code points. It is modelled as a \<^typ>\<open>string\<close>
  whose characters are the code points U+0000 .. U+00FF (Latin-1), one \<^typ>\<open>char\<close> per code
  point, so that \<^verbatim>\<open>len\<close> is \<^const>\<open>length\<close>. Every statement below about "every string"
  ranges over these strings.

  An exception is a value of type \<open>error\<close>, carrying the message of the \<^verbatim>\<open>raise\<close>.
\<close>

datatype error = ValueError string | KeyError string | OverflowError string

text \<open>
  The regular-expression class \<^verbatim>\<open>\d\<close> and \<^verbatim>\<open>str.isdecimal\<close> accept, among the Latin-1
  code points, exactly the ten ASCII digits. \<^verbatim>\<open>str.isdigit\<close> accepts in addition the
  superscript digits U+00B2, U+00B3 and U+00B9. \<^verbatim>\<open>s.isdigit()\<close> is false for the empty string.
\<close>

definition decimal_char :: "char \<Rightarrow> bool" where
  "decimal_char c = (c \<in> set ''0123456789'')"

definition superscript_digit :: "char \<Rightarrow> bool" where
  "superscript_digit c = (c \<in> set [CHR 0xB2, CHR 0xB3, CHR 0xB9])"

definition isdigit_char :: "char \<Rightarrow> bool" where
  "isdigit_char c = (decimal_char c \<or> superscript_digit c)"

definition isdigit :: "string \<Rightarrow> bool" where
  "isdigit s = (s \<noteq> [] \<and> list_all isdigit_char s)"


section \<open>Field, Name, Phone\<close>

text \<open>
  \<^verbatim>\<open>Field\<close> holds one attribute, \<^verbatim>\<open>value\<close>; \<^verbatim>\<open>Name\<close> inherits its constructor unchanged.
  The functions \<open>Phone_init\<close> and (below) \<open>Birthday_init\<close> are the \<^verbatim>\<open>__init__\<close> methods:
  they return the constructed object or the exception raised. Callers pass strings (tokens
  of the command line), so \<^verbatim>\<open>isinstance(value, str)\<close> holds at this type.
\<close>

datatype Name = Name (name_value: string)

datatype Phone = Phone (phone_value: string)

definition validate :: "string \<Rightarrow> bool" where
  "validate v = (isdigit v \<and> length v = 10)"

definition Phone_init :: "string \<Rightarrow> error + Phone" where
  "Phone_init v =
     (if \<not> validate v then Inl (ValueError ''Phone number must contain exactly 10 digits.'')
      else Inr (Phone v))"

datatype Birthday = Birthday (birthday_value: string)


section \<open>Record\<close>

record Record =
  name :: Name
  phones :: "Phone list"
  birthday :: "Birthday option"

definition Record_init :: "string \<Rightarrow> Record" where
  "Record_init n = \<lparr>name = Name n, phones = [], birthday = None\<rparr>"

text \<open>
  A method that mutates \<^verbatim>\<open>self\<close> returns a pair: what the call did (\<open>Inr ()\<close> when it
  returned, \<open>Inl e\<close> when it raised \<open>e\<close>) and the record as it is after the call.
\<close>

fun find_phone_loop :: "Phone list \<Rightarrow> string \<Rightarrow> Phone option" where
  "find_phone_loop [] number = None"
| "find_phone_loop (phone # rest) number =
     (if phone_value phone = number then Some phone else find_phone_loop rest number)"

definition find_phone :: "Record \<Rightarrow> string \<Rightarrow> Phone option" where
  "find_phone self number = find_phone_loop (phones self) number"

definition add_phone :: "Record \<Rightarrow> string \<Rightarrow> (error + unit) \<times> Record" where
  "add_phone self phone_number =
     (case Phone_init phone_number of
        Inl e \<Rightarrow> (Inl e, self)
      | Inr phone \<Rightarrow> (Inr (), self\<lparr>phones := phones self @ [phone]\<rparr>))"

definition remove_phone :: "Record \<Rightarrow> string \<Rightarrow> (error + unit) \<times> Record" where
  "remove_phone self phone_number =
     (case find_phone self phone_number of
        Some phone \<Rightarrow> (Inr (), self\<lparr>phones := remove1 phone (phones self)\<rparr>)
      | None \<Rightarrow> (Inl (ValueError ''Phone not found.''), self))"

text \<open>\<^verbatim>\<open>list.index(x)\<close>: the position of the first element equal to \<open>x\<close>, or \<open>None\<close> where
  Python raises \<^verbatim>\<open>ValueError\<close>.\<close>

fun list_index :: "'a list \<Rightarrow> 'a \<Rightarrow> nat option" where
  "list_index [] x = None"
| "list_index (y # ys) x =
     (if y = x then Some 0 else map_option Suc (list_index ys x))"

definition edit_phone :: "Record \<Rightarrow> string \<Rightarrow> string \<Rightarrow> (error + unit) \<times> Record" where
  "edit_phone self old new =
     (case find_phone self old of
        None \<Rightarrow> (Inl (ValueError ''Old phone not found.''), self)
      | Some phone \<Rightarrow>
          (case list_index (phones self) phone of
             None \<Rightarrow> (Inl (ValueError ''list.index(x): x not in list''), self)
           | Some idx \<Rightarrow>
               (case Phone_init new of
                  Inl e \<Rightarrow> (Inl e, self)
                | Inr p \<Rightarrow> (Inr (), self\<lparr>phones := (phones self)[idx := p]\<rparr>))))"


section \<open>AddressBook: the mapping\<close>

text \<open>
  \<^verbatim>\<open>UserDict.data\<close> is a \<^verbatim>\<open>dict\<close>: keys are distinct and keep their insertion order. It is
  an association list; \<^verbatim>\<open>data[k] = v\<close> is \<^const>\<open>AList.update\<close>, which replaces the value in
  place when the key is present and appends the pair otherwise.
\<close>

type_synonym AddressBook = "(string \<times> Record) list"

definition add_record :: "AddressBook \<Rightarrow> Record \<Rightarrow> AddressBook" where
  "add_record self record = AList.update (name_value (name record)) record self"

definition find_record :: "AddressBook \<Rightarrow> string \<Rightarrow> Record option" where
  "find_record self n = map_of self n"

definition delete_record :: "AddressBook \<Rightarrow> string \<Rightarrow> (error + unit) \<times> AddressBook" where
  "delete_record self n =
     (if n \<in> fst ` set self then (Inr (), AList.delete n self)
      else (Inl (KeyError ''Not found.''), self))"


section \<open>The calendar of \<^verbatim>\<open>datetime\<close>\<close>

text \<open>
  The proleptic Gregorian calendar of the standard library, after its reference
  implementation: the tables, \<^verbatim>\<open>_is_leap\<close>, \<^verbatim>\<open>_days_before_year\<close>, \<^verbatim>\<open>_days_in_month\<close>,
  \<^verbatim>\<open>_days_before_month\<close>, \<^verbatim>\<open>_ymd2ord\<close> and \<^verbatim>\<open>_ord2ymd\<close>. Python's \<^verbatim>\<open>//\<close> and \<^verbatim>\<open>%\<close> round
  towards minus infinity, as \<open>div\<close> and \<open>mod\<close> on \<^typ>\<open>int\<close> do; \<^verbatim>\<open>>> 5\<close> on a
  non-negative number is \<open>div 32\<close>.
\<close>

definition MINYEAR :: int where "MINYEAR = 1"
definition MAXYEAR :: int where "MAXYEAR = 9999"
definition MAXORDINAL :: int where "MAXORDINAL = 3652059"

definition DAYS_IN_MONTH :: "int list" where
  "DAYS_IN_MONTH = [-1, 31, 28, 31, 30, 31, 30, 31, 31, 30, 31, 30, 31]"

definition DAYS_BEFORE_MONTH :: "int list" where
  "DAYS_BEFORE_MONTH = [-1, 0, 31, 59, 90, 120, 151, 181, 212, 243, 273, 304, 334]"

definition is_leap :: "int \<Rightarrow> bool" where
  "is_leap year = (year mod 4 = 0 \<and> (year mod 100 \<noteq> 0 \<or> year mod 400 = 0))"

definition days_before_year :: "int \<Rightarrow> int" where
  "days_before_year year = (let y = year - 1 in y * 365 + y div 4 - y div 100 + y div 400)"

definition days_in_month :: "int \<Rightarrow> int \<Rightarrow> int" where
  "days_in_month year month =
     (if month = 2 \<and> is_leap year then 29 else DAYS_IN_MONTH ! nat month)"

definition days_before_month :: "int \<Rightarrow> int \<Rightarrow> int" where
  "days_before_month year month =
     DAYS_BEFORE_MONTH ! nat month + (if month > 2 \<and> is_leap year then 1 else 0)"

definition ymd2ord :: "int \<Rightarrow> int \<Rightarrow> int \<Rightarrow> int" where
  "ymd2ord year month day = days_before_year year + days_before_month year month + day"

definition DI400Y :: int where "DI400Y = days_before_year 401"
definition DI100Y :: int where "DI100Y = days_before_year 101"
definition DI4Y :: int where "DI4Y = days_before_year 5"

definition ord2ymd :: "int \<Rightarrow> int \<times> int \<times> int" where
  "ord2ymd ordinal =
     (let n = ordinal - 1;
          n400 = n div DI400Y; n = n mod DI400Y;
          year = n400 * 400 + 1;
          n100 = n div DI100Y; n = n mod DI100Y;
          n4 = n div DI4Y; n = n mod DI4Y;
          n1 = n div 365; n = n mod 365;
          year = year + (n100 * 100 + n4 * 4 + n1)
      in if n1 = 4 \<or> n100 = 4 then (year - 1, 12, 31)
         else
           let leapyear = (n1 = 3 \<and> (n4 \<noteq> 24 \<or> n100 = 3));
               month = (n + 50) div 32;
               preceding = DAYS_BEFORE_MONTH ! nat month + (if month > 2 \<and> leapyear then 1 else 0)
           in if preceding > n
              then let month = month - 1;
                       preceding = preceding - (DAYS_IN_MONTH ! nat month + (if month = 2 \<and> leapyear then 1 else 0))
                   in (year, month, n - preceding + 1)
              else (year, month, n - preceding + 1))"



text \<open>
  A \<^verbatim>\<open>date\<close> object holds a year, a month and a day. Its constructor checks the fields
  (\<^verbatim>\<open>_check_date_fields\<close>) and raises \<^verbatim>\<open>ValueError\<close> when they are no date; \<open>valid_date\<close>
  is what holds of every object it returns.
\<close>

record date =
  year :: int
  month :: int
  day :: int

text \<open>\<^verbatim>\<open>str(i)\<close> for an integer, as the \<^verbatim>\<open>%i\<close> of the error message prints it.\<close>

function int_digits :: "int \<Rightarrow> string" where
  "int_digits n =
     (if n < 10 then [''0123456789'' ! nat n]
      else int_digits (n div 10) @ [''0123456789'' ! nat (n mod 10)])"
  by pat_completeness auto
termination
  by (relation "measure nat") auto

definition str_int :: "int \<Rightarrow> string" where
  "str_int i = (if i < 0 then CHR ''-'' # int_digits (- i) else int_digits i)"

definition date_new :: "int \<Rightarrow> int \<Rightarrow> int \<Rightarrow> error + date" where
  "date_new y m d =
     (if \<not> (MINYEAR \<le> y \<and> y \<le> MAXYEAR) then Inl (ValueError (''year '' @ str_int y @ '' is out of range''))
      else if \<not> (1 \<le> m \<and> m \<le> 12) then Inl (ValueError ''month must be in 1..12'')
      else if \<not> (1 \<le> d \<and> d \<le> days_in_month y m)
        then Inl (ValueError ''day is out of range for month'')
      else Inr \<lparr>year = y, month = m, day = d\<rparr>)"

definition valid_date :: "date \<Rightarrow> bool" where
  "valid_date x =
     (MINYEAR \<le> year x \<and> year x \<le> MAXYEAR \<and> 1 \<le> month x \<and> month x \<le> 12
      \<and> 1 \<le> day x \<and> day x \<le> days_in_month (year x) (month x))"

definition toordinal :: "date \<Rightarrow> int" where
  "toordinal self = ymd2ord (year self) (month self) (day self)"

definition fromordinal :: "int \<Rightarrow> error + date" where
  "fromordinal n = (case ord2ymd n of (y, m, d) \<Rightarrow> date_new y m d)"

text \<open>\<^verbatim>\<open>self + timedelta(days=n)\<close>\<close>

definition date_add :: "date \<Rightarrow> int \<Rightarrow> error + date" where
  "date_add self days =
     (let ordn = toordinal self + days
      in if 0 < ordn \<and> ordn \<le> MAXORDINAL then fromordinal ordn
         else Inl (OverflowError ''date value out of range''))"

text \<open>Monday is 0, Sunday is 6.\<close>

definition weekday :: "date \<Rightarrow> int" where
  "weekday self = (toordinal self + 6) mod 7"

text \<open>\<^verbatim>\<open>self.replace(year=y)\<close> builds a new date, through the checking constructor.\<close>

definition replace_year :: "date \<Rightarrow> int \<Rightarrow> error + date" where
  "replace_year self y = date_new y (month self) (day self)"

text \<open>Dates compare as the tuples (year, month, day) do.\<close>

definition date_key :: "date \<Rightarrow> int \<times> int \<times> int" where
  "date_key x = (year x, month x, day x)"

definition date_lt :: "date \<Rightarrow> date \<Rightarrow> bool" where
  "date_lt a b = (date_key a < date_key b)"

definition date_le :: "date \<Rightarrow> date \<Rightarrow> bool" where
  "date_le a b = (date_key a \<le> date_key b)"


section \<open>\<^verbatim>\<open>datetime.strptime(s, "%d.%m.%Y")\<close>\<close>

text \<open>
  \<^verbatim>\<open>strptime\<close> compiles the format into the regular expression
  \<^verbatim>\<open>(?P<d>3[0-1]|[1-2]\d|0[1-9]|[1-9]| [1-9])\.(?P<m>1[0-2]|0[1-9]|[1-9])\.(?P<Y>\d\d\d\d)\<close>,
  matches it at the start of the text, and raises \<^verbatim>\<open>ValueError\<close> when there is no match or
  when the match ends before the text does. The groups go through \<^verbatim>\<open>int\<close> and into the
  date constructor.

  A matcher lists the ways in which its pattern matches a prefix of the text, as pairs
  (matched text, rest of the text), in the order in which the backtracking engine tries
  them; the engine's match is the first way in which the whole expression matches.
\<close>

definition nonzero_digit :: "char \<Rightarrow> bool" where
  "nonzero_digit c = (c \<in> set ''123456789'')"

definition two_chars :: "(char \<Rightarrow> bool) \<Rightarrow> (char \<Rightarrow> bool) \<Rightarrow> string \<Rightarrow> (string \<times> string) list" where
  "two_chars P Q s = (case s of a # b # r \<Rightarrow> if P a \<and> Q b then [([a, b], r)] else [] | _ \<Rightarrow> [])"

definition one_char :: "(char \<Rightarrow> bool) \<Rightarrow> string \<Rightarrow> (string \<times> string) list" where
  "one_char P s = (case s of a # r \<Rightarrow> if P a then [([a], r)] else [] | [] \<Rightarrow> [])"

definition re_d :: "string \<Rightarrow> (string \<times> string) list" where
  "re_d s =
     two_chars (\<lambda>c. c = CHR ''3'') (\<lambda>c. c \<in> set ''01'') s
     @ two_chars (\<lambda>c. c \<in> set ''12'') decimal_char s
     @ two_chars (\<lambda>c. c = CHR ''0'') nonzero_digit s
     @ one_char nonzero_digit s
     @ two_chars (\<lambda>c. c = CHR '' '') nonzero_digit s"

definition re_m :: "string \<Rightarrow> (string \<times> string) list" where
  "re_m s =
     two_chars (\<lambda>c. c = CHR ''1'') (\<lambda>c. c \<in> set ''012'') s
     @ two_chars (\<lambda>c. c = CHR ''0'') nonzero_digit s
     @ one_char nonzero_digit s"

definition re_Y :: "string \<Rightarrow> (string \<times> string) list" where
  "re_Y s =
     (case s of
        a # b # c # d # r \<Rightarrow>
          if decimal_char a \<and> decimal_char b \<and> decimal_char c \<and> decimal_char d
          then [([a, b, c, d], r)] else []
      | _ \<Rightarrow> [])"

definition re_dot :: "string \<Rightarrow> string list" where
  "re_dot s = (case s of a # r \<Rightarrow> if a = CHR ''.'' then [r] else [] | [] \<Rightarrow> [])"

text \<open>The ways in which the whole expression matches: the groups d, m and Y and the
  unmatched rest of the text.\<close>

definition re_matches :: "string \<Rightarrow> (string \<times> string \<times> string \<times> string) list" where
  "re_matches s =
     [(d, m, y, rest). (d, r1) \<leftarrow> re_d s, r2 \<leftarrow> re_dot r1, (m, r3) \<leftarrow> re_m r2,
                        r4 \<leftarrow> re_dot r3, (y, rest) \<leftarrow> re_Y r4]"

text \<open>\<^verbatim>\<open>format_regex.match(data_string)\<close>: the first of them.\<close>

definition re_match :: "string \<Rightarrow> (string \<times> string \<times> string \<times> string) option" where
  "re_match s = (case re_matches s of [] \<Rightarrow> None | found # _ \<Rightarrow> Some found)"

text \<open>\<^verbatim>\<open>int(s)\<close> on the text of a group: decimal digits, after a space in group d.\<close>

definition digit_value :: "char \<Rightarrow> int" where
  "digit_value c = int (of_char c) - 48"

definition py_int :: "string \<Rightarrow> int" where
  "py_int s = foldl (\<lambda>acc c. 10 * acc + digit_value c) 0 (dropWhile (\<lambda>c. c = CHR '' '') s)"

text \<open>The date of the \<^verbatim>\<open>datetime\<close> that \<^verbatim>\<open>strptime\<close> returns (its time of day is midnight).\<close>

definition strptime :: "string \<Rightarrow> error + date" where
  "strptime data_string =
     (case re_match data_string of
        None \<Rightarrow> Inl (ValueError ''time data does not match format'')
      | Some (d, m, y, rest) \<Rightarrow>
          if rest \<noteq> [] then Inl (ValueError ''unconverted data remains'')
          else date_new (py_int y) (py_int m) (py_int d))"


section \<open>Birthday\<close>

definition Birthday_init :: "string \<Rightarrow> error + Birthday" where
  "Birthday_init v =
     (case strptime v of
        Inl e \<Rightarrow> Inl (ValueError ''Invalid date format. Use DD.MM.YYYY'')
      | Inr parsed \<Rightarrow> Inr (Birthday v))"

definition add_birthday :: "Record \<Rightarrow> string \<Rightarrow> (error + unit) \<times> Record" where
  "add_birthday self birthday_str =
     (case Birthday_init birthday_str of
        Inl e \<Rightarrow> (Inl e, self)
      | Inr b \<Rightarrow> (Inr (), self\<lparr>birthday := Some b\<rparr>))"


section \<open>AddressBook.get\_upcoming\_birthdays\<close>

text \<open>
  \<^verbatim>\<open>date.today()\<close> reads the clock: the date it returns is the parameter \<open>today\<close>.
  One pass of the loop body over \<open>rec\<close> either raises (\<open>Inl\<close>), or leaves \<open>result\<close> as it is
  (\<open>Inr None\<close>: the two \<^verbatim>\<open>continue\<close>s and the failed window test), or appends one
  dictionary (\<open>Inr (Some item)\<close>).
\<close>

record entry =
  entry_name :: string
  entry_birthday :: date

definition loop_body :: "date \<Rightarrow> date \<Rightarrow> Record \<Rightarrow> error + entry option" where
  "loop_body today limit rec =
     (case birthday rec of
        None \<Rightarrow> Inr None
      | Some b \<Rightarrow>
          (case strptime (birthday_value b) of
             Inl e \<Rightarrow> Inr None
           | Inr bday_date \<Rightarrow>
               (case replace_year bday_date (year today) of
                  Inl e \<Rightarrow> Inl e
                | Inr bday0 \<Rightarrow>
                    (case (if date_lt bday0 today then replace_year bday_date (year today + 1)
                           else Inr bday0) of
                       Inl e \<Rightarrow> Inl e
                     | Inr bday \<Rightarrow>
                         if date_le today bday \<and> date_le bday limit then
                           (case (if weekday bday = 5 then date_add bday 2
                                  else if weekday bday = 6 then date_add bday 1
                                  else Inr bday) of
                              Inl e \<Rightarrow> Inl e
                            | Inr greeting \<Rightarrow>
                                Inr (Some \<lparr>entry_name = name_value (name rec),
                                           entry_birthday = greeting\<rparr>))
                         else Inr None))))"

fun upcoming_loop :: "date \<Rightarrow> date \<Rightarrow> Record list \<Rightarrow> entry list \<Rightarrow> error + entry list" where
  "upcoming_loop today limit [] result = Inr result"
| "upcoming_loop today limit (rec # rest) result =
     (case loop_body today limit rec of
        Inl e \<Rightarrow> Inl e
      | Inr None \<Rightarrow> upcoming_loop today limit rest result
      | Inr (Some item) \<Rightarrow> upcoming_loop today limit rest (result @ [item]))"

text \<open>\<^verbatim>\<open>sorted\<close> is stable, and so is \<^const>\<open>sort_key\<close>.\<close>

definition get_upcoming_birthdays :: "AddressBook \<Rightarrow> date \<Rightarrow> error + entry list" where
  "get_upcoming_birthdays self today =
     (case date_add today 6 of
        Inl e \<Rightarrow> Inl e
      | Inr limit \<Rightarrow>
          (case upcoming_loop today limit (map snd self) [] of
             Inl e \<Rightarrow> Inl e
           | Inr result \<Rightarrow> Inr (sort_key (\<lambda>x. date_key (entry_birthday x)) result)))"


section \<open>Notions of the specification\<close>

definition phones_valid :: "Record \<Rightarrow> bool" where
  "phones_valid r = list_all (\<lambda>p. validate (phone_value p)) (phones r)"

definition ten_decimal_digits :: "string \<Rightarrow> bool" where
  "ten_decimal_digits v = (length v = 10 \<and> list_all decimal_char v)"

text \<open>
  The books that \<open>add_record\<close> builds: every record is stored under its own name, and no
  name is stored twice.
\<close>

definition book_wf :: "AddressBook \<Rightarrow> bool" where
  "book_wf b = (distinct (map fst b) \<and> list_all (\<lambda>(k, r). k = name_value (name r)) b)"

text \<open>
  The birthday of a record as a date; the date re-anchored to the current year, or to the
  next year when that falls before today; the window of seven days, counted in days since
  1 January of year 1; the shift of the greeting date for a birthday on a Saturday (5) or a
  Sunday (6).
\<close>

definition birth_date :: "Record \<Rightarrow> date option" where
  "birth_date r =
     (case birthday r of
        None \<Rightarrow> None
      | Some b \<Rightarrow> (case strptime (birthday_value b) of Inl e \<Rightarrow> None | Inr d \<Rightarrow> Some d))"

definition anchored :: "date \<Rightarrow> date \<Rightarrow> date" where
  "anchored today bd =
     (if date_lt (bd\<lparr>year := year today\<rparr>) today then bd\<lparr>year := year today + 1\<rparr>
      else bd\<lparr>year := year today\<rparr>)"

definition in_window :: "date \<Rightarrow> date \<Rightarrow> bool" where
  "in_window today a = (toordinal today \<le> toordinal a \<and> toordinal a \<le> toordinal today + 6)"

definition greeting_shift :: "date \<Rightarrow> int" where
  "greeting_shift a = (if weekday a = 5 then 2 else if weekday a = 6 then 1 else 0)"

text \<open>No birthday of the book is a 29 February.\<close>

definition no_leap_day :: "AddressBook \<Rightarrow> bool" where
  "no_leap_day book =
     list_all (\<lambda>(k, r). case birth_date r of None \<Rightarrow> True
                          | Some bd \<Rightarrow> \<not> (month bd = 2 \<and> day bd = 29)) book"

text \<open>The dictionaries that the loop appends, in the order of the loop.\<close>

definition entries_of :: "date \<Rightarrow> date \<Rightarrow> Record list \<Rightarrow> entry list" where
  "entries_of today limit rs =
     concat (map (\<lambda>r. case loop_body today limit r of Inr (Some e) \<Rightarrow> [e] | _ \<Rightarrow> []) rs)"

text \<open>
  A real calendar date, and the texts of a day, a month and a year that \<^verbatim>\<open>%d\<close>, \<^verbatim>\<open>%m\<close>
  and \<^verbatim>\<open>%Y\<close> accept, described by their values: a day is 1 to 31 written with one or
  two decimal digits, or one nonzero digit after a space; a month is 1 to 12 written with
  one or two decimal digits; a year is four decimal digits. \<open>DD_MM_YYYY\<close> is the format of
  the specification: two digits, a dot, two digits, a dot, four digits.
\<close>

definition real_date :: "int \<Rightarrow> int \<Rightarrow> int \<Rightarrow> bool" where
  "real_date y m d =
     (1 \<le> y \<and> y \<le> 9999 \<and> 1 \<le> m \<and> m \<le> 12 \<and> 1 \<le> d \<and> d \<le> days_in_month y m)"

definition day_text :: "string \<Rightarrow> bool" where
  "day_text t =
     ((list_all decimal_char t \<and> (length t = 1 \<or> length t = 2) \<and> 1 \<le> py_int t \<and> py_int t \<le> 31)
      \<or> (length t = 2 \<and> hd t = CHR '' '' \<and> nonzero_digit (last t)))"

definition month_text :: "string \<Rightarrow> bool" where
  "month_text t =
     (list_all decimal_char t \<and> (length t = 1 \<or> length t = 2) \<and> 1 \<le> py_int t \<and> py_int t \<le> 12)"

definition year_text :: "string \<Rightarrow> bool" where
  "year_text t = (list_all decimal_char t \<and> length t = 4)"

definition DD_MM_YYYY :: "string \<Rightarrow> bool" where
  "DD_MM_YYYY s =
     (length s = 10 \<and> list_all decimal_char (take 2 s) \<and> s ! 2 = CHR ''.''
      \<and> list_all decimal_char (take 2 (drop 3 s)) \<and> s ! 5 = CHR ''.''
      \<and> list_all decimal_char (drop 6 s))"

text \<open>The alternatives of the groups d and m for a text of two characters, and the texts
  that the whole expression matches with a given split into groups and rest.\<close>

definition day_alternatives :: "char \<Rightarrow> char \<Rightarrow> bool" where
  "day_alternatives a b =
     ((a = CHR ''3'' \<and> b \<in> set ''01'') \<or> (a \<in> set ''12'' \<and> decimal_char b)
      \<or> (a = CHR ''0'' \<and> nonzero_digit b) \<or> (a = CHR '' '' \<and> nonzero_digit b))"

definition month_alternatives :: "char \<Rightarrow> char \<Rightarrow> bool" where
  "month_alternatives a b =
     ((a = CHR ''1'' \<and> b \<in> set ''012'') \<or> (a = CHR ''0'' \<and> nonzero_digit b))"

definition parses :: "string \<Rightarrow> string \<times> string \<times> string \<times> string \<Rightarrow> bool" where
  "parses s c = (case c of (d, m, y, rest) \<Rightarrow>
     s = d @ CHR ''.'' # m @ CHR ''.'' # y @ rest \<and> day_text d \<and> month_text m \<and> year_text y)"


section \<open>Scenarios\<close>

text \<open>
  Contacts and dates for the scenarios of the specification. 8 June 2024 is a Saturday,
  9 June 2024 a Sunday, 10 June 2024 a Monday and 15 June 2024 a Saturday; 2023 is no leap
  year.
\<close>

definition alice :: Record where
  "alice = \<lparr>name = Name ''Alice'', phones = [], birthday = Some (Birthday ''10.06.1990'')\<rparr>"

definition bob :: Record where
  "bob = \<lparr>name = Name ''Bob'', phones = [], birthday = Some (Birthday ''15.06.1990'')\<rparr>"

definition eve :: Record where
  "eve = \<lparr>name = Name ''Eve'', phones = [], birthday = Some (Birthday ''29.02.2000'')\<rparr>"

definition zed :: Record where
  "zed = \<lparr>name = Name ''Zed'', phones = [], birthday = Some (Birthday ''27.12.1990'')\<rparr>"

definition june_8 :: date where
  "june_8 = \<lparr>year = 2024, month = 6, day = 8\<rparr>"

definition june_9 :: date where
  "june_9 = \<lparr>year = 2024, month = 6, day = 9\<rparr>"

definition june_10 :: date where
  "june_10 = \<lparr>year = 2024, month = 6, day = 10\<rparr>"

definition june_17 :: date where
  "june_17 = \<lparr>year = 2024, month = 6, day = 17\<rparr>"


section \<open>Calendar arithmetic\<close>

lemma DI_values: "DI400Y = 146097" "DI100Y = 36524" "DI4Y = 1461"
  by (simp_all add: DI400Y_def DI100Y_def DI4Y_def days_before_year_def)

lemma dby_decomp:
  assumes "0 \<le> n100" "n100 \<le> 3" "0 \<le> n4" "n4 \<le> 24" "0 \<le> n1" "n1 \<le> 3"
  shows "days_before_year (n400 * 400 + 1 + (n100 * 100 + n4 * 4 + n1))
         = 146097 * n400 + 36524 * n100 + 1461 * n4 + 365 * n1"
proof -
  let ?y = "n400 * 400 + (n100 * 100 + n4 * 4 + n1)"
  have a: "?y div 4 = 100 * n400 + 25 * n100 + n4"
    by (rule int_div_pos_eq[where r = n1]) (use assms in auto)
  have b: "?y div 100 = 4 * n400 + n100"
    by (rule int_div_pos_eq[where r = "n4 * 4 + n1"]) (use assms in auto)
  have c: "?y div 400 = n400"
    by (rule int_div_pos_eq[where r = "n100 * 100 + n4 * 4 + n1"]) (use assms in auto)
  show ?thesis
    unfolding days_before_year_def Let_def using a b c by (simp add: algebra_simps)
qed

lemma leap_decomp:
  assumes "0 \<le> n100" "n100 \<le> 3" "0 \<le> n4" "n4 \<le> 24" "0 \<le> n1" "n1 \<le> 3"
  shows "is_leap (n400 * 400 + 1 + (n100 * 100 + n4 * 4 + n1))
         = (n1 = 3 \<and> (n4 \<noteq> 24 \<or> n100 = 3))"
proof -
  let ?y = "n400 * 400 + 1 + (n100 * 100 + n4 * 4 + n1)"
  have m4: "?y mod 4 = (n1 + 1) mod 4"
  proof -
    have "?y = (n1 + 1) + 4 * (100 * n400 + 25 * n100 + n4)" by simp
    then show ?thesis by (simp only: mod_mult_self2)
  qed
  have m100: "?y mod 100 = (n4 * 4 + n1 + 1) mod 100"
  proof -
    have "?y = (n4 * 4 + n1 + 1) + 100 * (4 * n400 + n100)" by simp
    then show ?thesis by (simp only: mod_mult_self2)
  qed
  have m400: "?y mod 400 = (n100 * 100 + n4 * 4 + n1 + 1) mod 400"
  proof -
    have "?y = (n100 * 100 + n4 * 4 + n1 + 1) + 400 * n400" by simp
    then show ?thesis by (simp only: mod_mult_self2)
  qed
  have a: "(n1 + 1) mod 4 = 0 \<longleftrightarrow> n1 = 3"
  proof (cases "n1 = 3")
    case False
    then have "(n1 + 1) mod 4 = n1 + 1" using assms(5,6) by simp
    with False show ?thesis using assms(5) by simp
  qed simp
  have b: "(n4 * 4 + n1 + 1) mod 100 = 0 \<longleftrightarrow> n4 = 24" if "n1 = 3"
  proof (cases "n4 = 24")
    case False
    then have "(n4 * 4 + n1 + 1) mod 100 = n4 * 4 + n1 + 1" using assms(3,4) that by simp
    with False show ?thesis using assms(3) that by simp
  qed (simp add: that)
  have c: "(n100 * 100 + n4 * 4 + n1 + 1) mod 400 = 0 \<longleftrightarrow> n100 = 3" if "n1 = 3" "n4 = 24"
  proof (cases "n100 = 3")
    case False
    then have "(n100 * 100 + n4 * 4 + n1 + 1) mod 400 = n100 * 100 + n4 * 4 + n1 + 1"
      using assms(1,2) that by simp
    with False show ?thesis using assms(1) that by simp
  qed (simp add: that)
  show ?thesis
  proof (cases "n1 = 3")
    case True
    show ?thesis
    proof (cases "n4 = 24")
      case True
      with \<open>n1 = 3\<close> show ?thesis
        unfolding is_leap_def m4 m100 m400 using a b c by simp
    next
      case False
      with \<open>n1 = 3\<close> show ?thesis
        unfolding is_leap_def m4 m100 m400 using a b by simp
    qed
  next
    case False
    then show ?thesis
      unfolding is_leap_def m4 using a by simp
  qed
qed

lemma int_1_to_12:
  "1 \<le> (k::int) \<Longrightarrow> k \<le> 12 \<Longrightarrow>
     k = 1 \<or> k = 2 \<or> k = 3 \<or> k = 4 \<or> k = 5 \<or> k = 6 \<or> k = 7 \<or> k = 8 \<or> k = 9 \<or> k = 10 \<or> k = 11 \<or> k = 12"
  by arith

lemma month_estimate:
  fixes n :: int and leapyear :: bool
  assumes "0 \<le> n" "n \<le> 364"
  defines "k \<equiv> (n + 50) div 32"
  defines "p \<equiv> DAYS_BEFORE_MONTH ! nat k + (if k > 2 \<and> leapyear then 1 else 0)"
  defines "m \<equiv> (if p > n then k - 1 else k)"
  defines "d \<equiv> (if p > n
              then n - (p - (DAYS_IN_MONTH ! nat (k - 1) + (if k - 1 = 2 \<and> leapyear then 1 else 0))) + 1
              else n - p + 1)"
  shows "1 \<le> m \<and> m \<le> 12 \<and> 1 \<le> d
       \<and> d \<le> (if m = 2 \<and> leapyear then 29 else DAYS_IN_MONTH ! nat m)
       \<and> DAYS_BEFORE_MONTH ! nat m + (if m > 2 \<and> leapyear then 1 else 0) + d = n + 1"
proof -
  have k: "32 * k \<le> n + 50" "n + 50 < 32 * k + 32"
    unfolding k_def by (simp_all add: algebra_simps) 
  have "1 \<le> k" "k \<le> 12" using k assms(1,2) by linarith+
  then have "k = 1 \<or> k = 2 \<or> k = 3 \<or> k = 4 \<or> k = 5 \<or> k = 6 \<or> k = 7 \<or> k = 8 \<or> k = 9 \<or> k = 10 \<or> k = 11 \<or> k = 12"
    by (rule int_1_to_12)
  then show ?thesis
    using k assms(1,2) unfolding m_def d_def p_def DAYS_BEFORE_MONTH_def DAYS_IN_MONTH_def
    by (elim disjE) simp_all
qed

lemma divmod_step:
  fixes a b :: int
  assumes "0 \<le> a" "0 < b"
  shows "a = b * (a div b) + a mod b" "0 \<le> a div b" "0 \<le> a mod b" "a mod b < b"
  using assms by (simp_all add: pos_imp_zdiv_nonneg_iff)

lemma ord2ymd_correct:
  assumes "1 \<le> n"
  shows "case ord2ymd n of (y, m, d) \<Rightarrow>
           1 \<le> y \<and> 1 \<le> m \<and> m \<le> 12 \<and> 1 \<le> d \<and> d \<le> days_in_month y m \<and> ymd2ord y m d = n"
proof -
  define a where "a = n - 1"
  define n400 where "n400 = a div 146097"
  define r where "r = a mod 146097"
  define n100 where "n100 = r div 36524"
  define r1 where "r1 = r mod 36524"
  define n4 where "n4 = r1 div 1461"
  define r2 where "r2 = r1 mod 1461"
  define n1 where "n1 = r2 div 365"
  define r3 where "r3 = r2 mod 365"
  define Y where "Y = n400 * 400 + 1 + (n100 * 100 + n4 * 4 + n1)"
  define leapyear where "leapyear = (n1 = 3 \<and> (n4 \<noteq> 24 \<or> n100 = 3))"
  have a0: "0 \<le> a" using assms by (simp add: a_def)
  have s400: "a = 146097 * n400 + r" "0 \<le> n400" "0 \<le> r" "r < 146097"
    unfolding n400_def r_def using divmod_step[OF a0, of 146097] by simp_all
  have s100: "r = 36524 * n100 + r1" "0 \<le> n100" "0 \<le> r1" "r1 < 36524"
    unfolding n100_def r1_def using divmod_step[OF s400(3), of 36524] by simp_all
  have s4: "r1 = 1461 * n4 + r2" "0 \<le> n4" "0 \<le> r2" "r2 < 1461"
    unfolding n4_def r2_def using divmod_step[OF s100(3), of 1461] by simp_all
  have s1: "r2 = 365 * n1 + r3" "0 \<le> n1" "0 \<le> r3" "r3 < 365"
    unfolding n1_def r3_def using divmod_step[OF s4(3), of 365] by simp_all
  have b100: "n100 \<le> 4" using s400 s100 by linarith
  have b4: "n4 \<le> 24" using s100 s4 by linarith
  have b1: "n1 \<le> 4" using s4 s1 by linarith
  define k where "k = (r3 + 50) div 32"
  define p where "p = DAYS_BEFORE_MONTH ! nat k + (if k > 2 \<and> leapyear then 1 else 0)"
  define m where "m = (if p > r3 then k - 1 else k)"
  define d where "d = (if p > r3
            then r3 - (p - (DAYS_IN_MONTH ! nat (k - 1) + (if k - 1 = 2 \<and> leapyear then 1 else 0))) + 1
            else r3 - p + 1)"
  have unf: "ord2ymd n =
      (if n1 = 4 \<or> n100 = 4 then (Y - 1, 12, 31)
       else if p > r3
            then (Y, k - 1, r3 - (p - (DAYS_IN_MONTH ! nat (k - 1) + (if k - 1 = 2 \<and> leapyear then 1 else 0))) + 1)
            else (Y, k, r3 - p + 1))"
    unfolding ord2ymd_def Let_def DI_values a_def[symmetric] n400_def[symmetric] r_def[symmetric]
      n100_def[symmetric] r1_def[symmetric] n4_def[symmetric] r2_def[symmetric] n1_def[symmetric]
      r3_def[symmetric] Y_def[symmetric] leapyear_def[symmetric] k_def[symmetric] p_def[symmetric]
    by (rule refl)
  show ?thesis
  proof (cases "n1 = 4 \<or> n100 = 4")
    case True
    have res: "ord2ymd n = (Y - 1, 12, 31)"
      unfolding unf using True by simp
    have "\<exists>m100 m4. 0 \<le> m100 \<and> m100 \<le> 3 \<and> 0 \<le> m4 \<and> m4 \<le> 24 \<and> (m4 \<noteq> 24 \<or> m100 = 3)
             \<and> Y - 1 = n400 * 400 + 1 + (m100 * 100 + m4 * 4 + 3)
             \<and> a + 1 = 146097 * n400 + 36524 * m100 + 1461 * m4 + 1461"
    proof (cases "n100 = 4")
      case True
      then have "r1 = 0" "n4 = 0" "r2 = 0" "n1 = 0" "r3 = 0"
        using s400 s100 s4 s1 by linarith+
      then show ?thesis
        using True s400 s100
        by (intro exI[of _ 3] exI[of _ 24]) (simp add: Y_def)
    next
      case False
      with True have n1: "n1 = 4" by simp
      then have "r3 = 0" using s4 s1 by linarith
      moreover have "n4 \<le> 23" using n1 s100 s4 s1 by linarith
      moreover have "n100 \<le> 3" using False b100 by simp
      ultimately show ?thesis
        using n1 s400 s100 s4 s1
        by (intro exI[of _ n100] exI[of _ n4]) (simp add: Y_def)
    qed
    then obtain m100 m4 where m: "0 \<le> m100" "m100 \<le> 3" "0 \<le> m4" "m4 \<le> 24" "m4 \<noteq> 24 \<or> m100 = 3"
      "Y - 1 = n400 * 400 + 1 + (m100 * 100 + m4 * 4 + 3)"
      "a + 1 = 146097 * n400 + 36524 * m100 + 1461 * m4 + 1461"
      by blast
    have dby: "days_before_year (Y - 1) = 146097 * n400 + 36524 * m100 + 1461 * m4 + 1095"
      unfolding m(6) using dby_decomp[of m100 m4 3 n400] m(1-4) by simp
    have leap: "is_leap (Y - 1)"
      unfolding m(6) using leap_decomp[of m100 m4 3 n400] m(1-5) by simp
    have "1 \<le> Y - 1" using m(1,3,6) s400(2) by linarith
    moreover have "ymd2ord (Y - 1) 12 31 = n"
      using dby leap m(7)
      by (simp add: ymd2ord_def days_before_month_def DAYS_BEFORE_MONTH_def a_def)
    ultimately show ?thesis
      by (simp add: res days_in_month_def DAYS_IN_MONTH_def)
  next
    case False
    then have n1: "n1 \<le> 3" and n100: "n100 \<le> 3" using b1 b100 by linarith+
    have res: "ord2ymd n = (Y, m, d)"
      unfolding unf m_def d_def using False by simp
    have md: "1 \<le> m \<and> m \<le> 12 \<and> 1 \<le> d
       \<and> d \<le> (if m = 2 \<and> leapyear then 29 else DAYS_IN_MONTH ! nat m)
       \<and> DAYS_BEFORE_MONTH ! nat m + (if m > 2 \<and> leapyear then 1 else 0) + d = r3 + 1"
      unfolding m_def d_def p_def k_def
      using month_estimate[of r3 leapyear] s1(3,4) by simp
    have dby: "days_before_year Y = 146097 * n400 + 36524 * n100 + 1461 * n4 + 365 * n1"
      unfolding Y_def using dby_decomp[of n100 n4 n1 n400] s100(2) n100 s4(2) b4 s1(2) n1 by simp
    have leap: "is_leap Y = leapyear"
      unfolding Y_def leapyear_def using leap_decomp[of n100 n4 n1 n400] s100(2) n100 s4(2) b4 s1(2) n1 by simp
    have "1 \<le> Y" unfolding Y_def using s400(2) s100(2) s4(2) s1(2) by linarith
    moreover have "ymd2ord Y m d = n"
      using dby leap md s400(1) s100(1) s4(1) s1(1)
      by (simp add: ymd2ord_def days_before_month_def a_def)
    ultimately show ?thesis
      using md leap by (simp add: res days_in_month_def)
  qed
qed


subsection \<open>Ordinals grow with the calendar order\<close>

lemma div_step:
  fixes y b :: int
  assumes "0 < b"
  shows "y div b = (y - 1) div b + (if y mod b = 0 then 1 else 0)"
proof (cases "y mod b = 0")
  case True
  have "(y - 1) div b = y div b - 1"
  proof (rule int_div_pos_eq[where r = "b - 1"])
    show "y - 1 = b * (y div b - 1) + (b - 1)"
      using True mult_div_mod_eq[of b y] by (simp add: algebra_simps)
  qed (use assms in auto)
  then show ?thesis using True by simp
next
  case False
  have "(y - 1) div b = y div b"
  proof (rule int_div_pos_eq[where r = "y mod b - 1"])
    show "y - 1 = b * (y div b) + (y mod b - 1)" by simp
    show "0 \<le> y mod b - 1" using False assms pos_mod_sign[of b y] by linarith
    show "y mod b - 1 < b" using assms pos_mod_bound[of b y] by linarith
  qed
  then show ?thesis using False by simp
qed

lemma dby_step:
  "days_before_year (y + 1) = days_before_year y + (if is_leap y then 366 else 365)"
proof -
  have h1: "y mod 4 = 0" if "y mod 100 = 0"
  proof -
    have "(100::int) dvd y" using that by (simp add: dvd_eq_mod_eq_0)
    moreover have "(4::int) dvd 100" by simp
    ultimately have "(4::int) dvd y" by (rule dvd_trans[rotated])
    then show ?thesis by (simp add: dvd_eq_mod_eq_0)
  qed
  have h2: "y mod 100 = 0" if "y mod 400 = 0"
  proof -
    have "(400::int) dvd y" using that by (simp add: dvd_eq_mod_eq_0)
    moreover have "(100::int) dvd 400" by simp
    ultimately have "(100::int) dvd y" by (rule dvd_trans[rotated])
    then show ?thesis by (simp add: dvd_eq_mod_eq_0)
  qed
  define e4 :: int where "e4 = (if y mod 4 = 0 then 1 else 0)"
  define e100 :: int where "e100 = (if y mod 100 = 0 then 1 else 0)"
  define e400 :: int where "e400 = (if y mod 400 = 0 then 1 else 0)"
  have d: "y div 4 = (y - 1) div 4 + e4" "y div 100 = (y - 1) div 100 + e100"
    "y div 400 = (y - 1) div 400 + e400"
    unfolding e4_def e100_def e400_def by (rule div_step, simp)+
  have a: "days_before_year (y + 1) = y * 365 + y div 4 - y div 100 + y div 400"
    by (simp add: days_before_year_def)
  have b: "days_before_year y = (y - 1) * 365 + (y - 1) div 4 - (y - 1) div 100 + (y - 1) div 400"
    by (simp add: days_before_year_def Let_def)
  have "days_before_year (y + 1) = days_before_year y + 365 + e4 - e100 + e400"
    unfolding a b d by (simp add: algebra_simps)
  then have e: "days_before_year (y + 1) = days_before_year y + 365
             + (if y mod 4 = 0 then 1 else 0) - (if y mod 100 = 0 then 1 else 0)
             + (if y mod 400 = 0 then 1 else 0)"
    unfolding e4_def e100_def e400_def .
  show ?thesis
  proof (cases "y mod 4 = 0")
    case False
    then have "y mod 100 \<noteq> 0" using h1 by auto
    moreover from this have "y mod 400 \<noteq> 0" using h2 by auto
    ultimately have "y mod 100 \<noteq> 0" "y mod 400 \<noteq> 0" .
    with False show ?thesis unfolding e is_leap_def by simp
  next
    case True
    show ?thesis
    proof (cases "y mod 100 = 0")
      case False
      then have "y mod 400 \<noteq> 0" using h2 by auto
      with True False show ?thesis unfolding e is_leap_def by simp
    next
      case c: True
      with True show ?thesis unfolding e is_leap_def by simp
    qed
  qed
qed


lemma dby_mono_aux:
  "days_before_year y + 365 * int k \<le> days_before_year (y + int k)"
proof (induction k)
  case 0
  then show ?case by simp
next
  case (Suc k)
  have "days_before_year (y + int (Suc k)) = days_before_year ((y + int k) + 1)"
    by (simp add: algebra_simps)
  also have "\<dots> \<ge> days_before_year (y + int k) + 365"
    unfolding dby_step by simp
  finally show ?case using Suc.IH by simp
qed

lemma dby_mono:
  assumes "y \<le> y'"
  shows "days_before_year y + 365 * (y' - y) \<le> days_before_year y'"
  using dby_mono_aux[of y "nat (y' - y)"] assms by simp

lemma dbm_values:
  "days_before_month y 1 = 0"
  "days_before_month y 2 = 31"
  "days_before_month y 3 = (if is_leap y then 60 else 59)"
  "days_before_month y 4 = (if is_leap y then 91 else 90)"
  "days_before_month y 5 = (if is_leap y then 121 else 120)"
  "days_before_month y 6 = (if is_leap y then 152 else 151)"
  "days_before_month y 7 = (if is_leap y then 182 else 181)"
  "days_before_month y 8 = (if is_leap y then 213 else 212)"
  "days_before_month y 9 = (if is_leap y then 244 else 243)"
  "days_before_month y 10 = (if is_leap y then 274 else 273)"
  "days_before_month y 11 = (if is_leap y then 305 else 304)"
  "days_before_month y 12 = (if is_leap y then 335 else 334)"
  by (simp_all add: days_before_month_def DAYS_BEFORE_MONTH_def)

lemma dim_values:
  "days_in_month y 1 = 31"
  "days_in_month y 2 = (if is_leap y then 29 else 28)"
  "days_in_month y 3 = 31"
  "days_in_month y 4 = 30"
  "days_in_month y 5 = 31"
  "days_in_month y 6 = 30"
  "days_in_month y 7 = 31"
  "days_in_month y 8 = 31"
  "days_in_month y 9 = 30"
  "days_in_month y 10 = 31"
  "days_in_month y 11 = 30"
  "days_in_month y 12 = 31"
  by (simp_all add: days_in_month_def DAYS_IN_MONTH_def)

lemma dbm_next:
  assumes "1 \<le> m" "m \<le> 11"
  shows "days_before_month y (m + 1) = days_before_month y m + days_in_month y m"
proof -
  have "m = 1 \<or> m = 2 \<or> m = 3 \<or> m = 4 \<or> m = 5 \<or> m = 6 \<or> m = 7 \<or> m = 8 \<or> m = 9 \<or> m = 10 \<or> m = 11 \<or> m = 12"
    using assms by (intro int_1_to_12) auto
  then show ?thesis using assms(2)
    by (elim disjE) (simp_all add: dbm_values dim_values)
qed

lemma dbm_last:
  "days_before_month y 12 + days_in_month y 12 = (if is_leap y then 366 else 365)"
  by (simp add: dbm_values dim_values)

lemma dim_bounds:
  assumes "1 \<le> m" "m \<le> 12"
  shows "28 \<le> days_in_month y m" "days_in_month y m \<le> 31"
proof -
  have "m = 1 \<or> m = 2 \<or> m = 3 \<or> m = 4 \<or> m = 5 \<or> m = 6 \<or> m = 7 \<or> m = 8 \<or> m = 9 \<or> m = 10 \<or> m = 11 \<or> m = 12"
    using assms by (rule int_1_to_12)
  then show "28 \<le> days_in_month y m" "days_in_month y m \<le> 31"
    by (elim disjE; simp add: dim_values)+
qed

lemma dbm_mono_aux:
  assumes "1 \<le> m" "m + int k \<le> 12"
  shows "days_before_month y m \<le> days_before_month y (m + int k)"
  using assms
proof (induction k)
  case 0
  then show ?case by simp
next
  case (Suc k)
  have "days_before_month y (m + int (Suc k)) = days_before_month y ((m + int k) + 1)"
    by (simp add: algebra_simps)
  also have "\<dots> = days_before_month y (m + int k) + days_in_month y (m + int k)"
    using Suc.prems by (intro dbm_next) auto
  finally show ?case using Suc dim_bounds(1)[of "m + int k" y] by simp
qed


lemma dbm_upper:
  assumes "1 \<le> m" "m \<le> 12"
  shows "days_before_month y m + days_in_month y m \<le> (if is_leap y then 366 else 365)"
    and "0 \<le> days_before_month y m"
proof -
  have "m = 1 \<or> m = 2 \<or> m = 3 \<or> m = 4 \<or> m = 5 \<or> m = 6 \<or> m = 7 \<or> m = 8 \<or> m = 9 \<or> m = 10 \<or> m = 11 \<or> m = 12"
    using assms by (rule int_1_to_12)
  then show "days_before_month y m + days_in_month y m \<le> (if is_leap y then 366 else 365)"
    and "0 \<le> days_before_month y m"
    by (elim disjE; simp add: dbm_values dim_values)+
qed

lemma ymd2ord_bounds:
  assumes "1 \<le> m" "m \<le> 12" "1 \<le> d" "d \<le> days_in_month y m"
  shows "days_before_year y < ymd2ord y m d" "ymd2ord y m d \<le> days_before_year (y + 1)"
  using assms dbm_upper[of m y] by (auto simp: ymd2ord_def dby_step)

lemma ymd2ord_less_month:
  assumes "1 \<le> m" "m < m'" "m' \<le> 12" "d \<le> days_in_month y m" "1 \<le> d'"
  shows "ymd2ord y m d < ymd2ord y m' d'"
proof -
  have "days_before_month y m + days_in_month y m = days_before_month y (m + 1)"
    using assms by (intro dbm_next[symmetric]) auto
  also have "\<dots> \<le> days_before_month y ((m + 1) + int (nat (m' - m - 1)))"
    using assms by (intro dbm_mono_aux) auto
  also have "(m + 1) + int (nat (m' - m - 1)) = m'" using assms by simp
  finally show ?thesis using assms by (simp add: ymd2ord_def)
qed

lemma ymd2ord_less_year:
  assumes "y < y'" "1 \<le> m" "m \<le> 12" "1 \<le> d" "d \<le> days_in_month y m"
    "1 \<le> m'" "m' \<le> 12" "1 \<le> d'" "d' \<le> days_in_month y' m'"
  shows "ymd2ord y m d < ymd2ord y' m' d'"
proof -
  have "ymd2ord y m d \<le> days_before_year (y + 1)"
    using assms by (intro ymd2ord_bounds) auto
  also have "\<dots> \<le> days_before_year y'"
    using dby_mono[of "y + 1" y'] assms(1) by simp
  also have "\<dots> < ymd2ord y' m' d'"
    using assms by (intro ymd2ord_bounds) auto
  finally show ?thesis .
qed

lemma date_lt_alt:
  "date_lt a b \<longleftrightarrow>
     year a < year b \<or> (year a = year b \<and> (month a < month b \<or> (month a = month b \<and> day a < day b)))"
  unfolding date_lt_def date_key_def less_prod_def by auto

lemma toordinal_less:
  assumes "valid_date a" "valid_date b" "date_lt a b"
  shows "toordinal a < toordinal b"
proof -
  consider "year a < year b" | "year a = year b" "month a < month b"
    | "year a = year b" "month a = month b" "day a < day b"
    using assms(3) unfolding date_lt_alt by blast
  then show ?thesis
  proof cases
    case 1
    then show ?thesis
      using assms(1,2) unfolding toordinal_def valid_date_def
      by (intro ymd2ord_less_year) auto
  next
    case 2
    then show ?thesis
      using assms(1,2) unfolding toordinal_def valid_date_def
      by (auto intro: ymd2ord_less_month)
  next
    case 3
    then show ?thesis by (simp add: toordinal_def ymd2ord_def)
  qed
qed

lemma date_key_eq: "date_key a = date_key b \<longleftrightarrow> a = b"
  by (cases a, cases b) (auto simp: date_key_def)

lemma date_lt_iff:
  assumes "valid_date a" "valid_date b"
  shows "date_lt a b \<longleftrightarrow> toordinal a < toordinal b"
proof
  assume "toordinal a < toordinal b"
  show "date_lt a b"
  proof (rule ccontr)
    assume "\<not> date_lt a b"
    then have "date_key a = date_key b \<or> date_lt b a"
      by (auto simp: date_lt_def)
    then show False
      using toordinal_less[OF assms(2,1)] \<open>toordinal a < toordinal b\<close>
      by (auto simp: date_key_eq)
  qed
qed (rule toordinal_less[OF assms])

lemma date_le_iff:
  assumes "valid_date a" "valid_date b"
  shows "date_le a b \<longleftrightarrow> toordinal a \<le> toordinal b"
  using date_lt_iff[OF assms(2,1)] by (auto simp: date_le_def date_lt_def)

lemma toordinal_inj:
  assumes "valid_date a" "valid_date b" "toordinal a = toordinal b"
  shows "a = b"
  using toordinal_less[OF assms(1,2)] toordinal_less[OF assms(2,1)] assms(3)
  by (metis date_key_eq date_lt_def less_irrefl not_less_iff_gr_or_eq)

lemma toordinal_range:
  assumes "valid_date a"
  shows "1 \<le> toordinal a" "toordinal a \<le> MAXORDINAL"
proof -
  have v: "1 \<le> year a" "year a \<le> 9999" "1 \<le> month a" "month a \<le> 12" "1 \<le> day a"
    "day a \<le> days_in_month (year a) (month a)"
    using assms by (simp_all add: valid_date_def MINYEAR_def MAXYEAR_def)
  have "days_before_year 1 \<le> days_before_year (year a)"
    using dby_mono[of 1 "year a"] v(1) by simp
  moreover have "days_before_year 1 = 0" by (simp add: days_before_year_def)
  ultimately show "1 \<le> toordinal a"
    using ymd2ord_bounds(1)[OF v(3,4,5,6)] by (simp add: toordinal_def)
  have "toordinal a \<le> days_before_year (year a + 1)"
    unfolding toordinal_def using v by (intro ymd2ord_bounds) auto
  also have "\<dots> \<le> days_before_year 10000"
    using dby_mono[of "year a + 1" 10000] v(2) by simp
  also have "\<dots> = MAXORDINAL" by (simp add: days_before_year_def MAXORDINAL_def)
  finally show "toordinal a \<le> MAXORDINAL" .
qed

lemma date_new_Inr:
  "date_new y m d = Inr x \<Longrightarrow> valid_date x \<and> year x = y \<and> month x = m \<and> day x = d"
  by (auto simp: date_new_def valid_date_def split: if_splits)

lemma date_new_valid:
  "valid_date x \<Longrightarrow> date_new (year x) (month x) (day x) = Inr x"
  by (simp add: date_new_def valid_date_def)

lemma fromordinal_ok:
  assumes "1 \<le> n" "n \<le> MAXORDINAL"
  shows "\<exists>x. fromordinal n = Inr x \<and> valid_date x \<and> toordinal x = n"
proof -
  obtain y m d where o: "ord2ymd n = (y, m, d)" by (cases "ord2ymd n") auto
  have c: "1 \<le> y" "1 \<le> m" "m \<le> 12" "1 \<le> d" "d \<le> days_in_month y m" "ymd2ord y m d = n"
    using ord2ymd_correct[OF assms(1)] o by simp_all
  have "y \<le> 9999"
  proof (rule ccontr)
    assume "\<not> y \<le> 9999"
    then have "days_before_year 10000 \<le> days_before_year y"
      using dby_mono[of 10000 y] by simp
    also have "\<dots> < n" using ymd2ord_bounds(1)[OF c(2,3,4,5)] c(6) by simp
    finally show False using assms(2) by (simp add: days_before_year_def MAXORDINAL_def)
  qed
  then have "fromordinal n = Inr \<lparr>year = y, month = m, day = d\<rparr>"
    using c by (simp add: fromordinal_def o date_new_def MINYEAR_def MAXYEAR_def)
  moreover have "valid_date \<lparr>year = y, month = m, day = d\<rparr>"
    using c \<open>y \<le> 9999\<close> by (simp add: valid_date_def MINYEAR_def MAXYEAR_def)
  moreover have "toordinal \<lparr>year = y, month = m, day = d\<rparr> = n"
    using c by (simp add: toordinal_def)
  ultimately show ?thesis by blast
qed

lemma date_add_Inr:
  assumes "date_add a k = Inr x"
  shows "valid_date x \<and> toordinal x = toordinal a + k"
proof -
  have r: "0 < toordinal a + k" "toordinal a + k \<le> MAXORDINAL" and f: "fromordinal (toordinal a + k) = Inr x"
    using assms by (auto simp: date_add_def Let_def split: if_splits)
  from fromordinal_ok[of "toordinal a + k"] r f show ?thesis by auto
qed

lemma date_add_ok:
  assumes "0 < toordinal a + k" "toordinal a + k \<le> MAXORDINAL"
  shows "\<exists>x. date_add a k = Inr x \<and> valid_date x \<and> toordinal x = toordinal a + k"
  using fromordinal_ok[of "toordinal a + k"] assms by (simp add: date_add_def)

lemma date_add_overflow:
  assumes "\<not> (0 < toordinal a + k \<and> toordinal a + k \<le> MAXORDINAL)"
  shows "date_add a k = Inl (OverflowError ''date value out of range'')"
  using assms by (auto simp: date_add_def)


section \<open>What \<^verbatim>\<open>strptime\<close> accepts\<close>

lemma decimal_char_cases:
  "decimal_char c \<longleftrightarrow>
     c = CHR ''0'' \<or> c = CHR ''1'' \<or> c = CHR ''2'' \<or> c = CHR ''3'' \<or> c = CHR ''4''
     \<or> c = CHR ''5'' \<or> c = CHR ''6'' \<or> c = CHR ''7'' \<or> c = CHR ''8'' \<or> c = CHR ''9''"
  by (simp add: decimal_char_def)

lemma digit_values:
  "digit_value CHR ''0'' = 0" "digit_value CHR ''1'' = 1" "digit_value CHR ''2'' = 2"
  "digit_value CHR ''3'' = 3" "digit_value CHR ''4'' = 4" "digit_value CHR ''5'' = 5"
  "digit_value CHR ''6'' = 6" "digit_value CHR ''7'' = 7" "digit_value CHR ''8'' = 8"
  "digit_value CHR ''9'' = 9"
  by (simp_all add: digit_value_def)

lemma digit_value_range:
  "decimal_char c \<Longrightarrow> 0 \<le> digit_value c \<and> digit_value c \<le> 9"
  unfolding decimal_char_cases by (elim disjE) (simp_all add: digit_values)

lemma decimal_not_space: "decimal_char c \<Longrightarrow> c \<noteq> CHR '' '' \<and> c \<noteq> CHR ''.''"
  unfolding decimal_char_cases by auto

lemma nonzero_digit_iff: "nonzero_digit c \<longleftrightarrow> decimal_char c \<and> 1 \<le> digit_value c"
  unfolding decimal_char_cases nonzero_digit_def
  by (auto simp: digit_values)

lemma py_int_1: "decimal_char a \<Longrightarrow> py_int [a] = digit_value a"
  using decimal_not_space[of a] by (simp add: py_int_def)

lemma py_int_2: "decimal_char a \<Longrightarrow> py_int [a, b] = 10 * digit_value a + digit_value b"
  using decimal_not_space[of a] by (simp add: py_int_def)

lemma py_int_space: "decimal_char b \<Longrightarrow> py_int [CHR '' '', b] = digit_value b"
  using decimal_not_space[of b] by (simp add: py_int_def)

lemma py_int_4:
  "decimal_char a \<Longrightarrow> py_int [a, b, c, d]
     = 1000 * digit_value a + 100 * digit_value b + 10 * digit_value c + digit_value d"
  using decimal_not_space[of a] by (simp add: py_int_def)

lemma first_digit_iff:
  assumes "decimal_char a"
  shows "a = CHR ''0'' \<longleftrightarrow> digit_value a = 0" "a = CHR ''1'' \<longleftrightarrow> digit_value a = 1"
    "a = CHR ''2'' \<longleftrightarrow> digit_value a = 2" "a = CHR ''3'' \<longleftrightarrow> digit_value a = 3"
  using assms unfolding decimal_char_cases by (auto simp: digit_values)


lemma set_01: "b \<in> set ''01'' \<longleftrightarrow> decimal_char b \<and> digit_value b \<le> 1"
  unfolding decimal_char_cases by (auto simp: digit_values)

lemma set_012: "b \<in> set ''012'' \<longleftrightarrow> decimal_char b \<and> digit_value b \<le> 2"
  unfolding decimal_char_cases by (auto simp: digit_values)

lemma set_12: "a \<in> set ''12'' \<longleftrightarrow> decimal_char a \<and> (digit_value a = 1 \<or> digit_value a = 2)"
  unfolding decimal_char_cases by (auto simp: digit_values)

lemma is_char_iff:
  "a = CHR ''0'' \<longleftrightarrow> decimal_char a \<and> digit_value a = 0"
  "a = CHR ''1'' \<longleftrightarrow> decimal_char a \<and> digit_value a = 1"
  "a = CHR ''3'' \<longleftrightarrow> decimal_char a \<and> digit_value a = 3"
  unfolding decimal_char_cases by (auto simp: digit_values)

lemma day_text_1: "day_text [a] \<longleftrightarrow> nonzero_digit a"
proof (cases "decimal_char a")
  case True
  then show ?thesis
    using digit_value_range[of a] by (auto simp: day_text_def py_int_1 nonzero_digit_iff)
next
  case False
  then show ?thesis by (simp add: day_text_def nonzero_digit_iff)
qed

lemma day_alternatives_num:
  assumes "decimal_char a" "decimal_char b"
  shows "day_alternatives a b \<longleftrightarrow>
     (digit_value a = 3 \<and> digit_value b \<le> 1) \<or> digit_value a = 1 \<or> digit_value a = 2
     \<or> (digit_value a = 0 \<and> 1 \<le> digit_value b)"
proof -
  have "a \<noteq> CHR '' ''" using assms(1) decimal_not_space by blast
  then show ?thesis
    unfolding day_alternatives_def set_01 set_12 is_char_iff(1,3) nonzero_digit_iff
    using assms by blast
qed

lemma day_alternatives_decimal:
  "day_alternatives a b \<Longrightarrow> (decimal_char a \<or> a = CHR '' '') \<and> decimal_char b"
  unfolding day_alternatives_def set_01 set_12 is_char_iff(1,3) nonzero_digit_iff by blast

lemma day_text_2: "day_text [a, b] \<longleftrightarrow> day_alternatives a b"
proof (cases "decimal_char a \<and> decimal_char b")
  case True
  then have r: "0 \<le> digit_value a" "digit_value a \<le> 9" "0 \<le> digit_value b" "digit_value b \<le> 9"
    using digit_value_range by blast+
  have "a \<noteq> CHR '' ''" using True decimal_not_space by blast
  then have "day_text [a, b] \<longleftrightarrow> 1 \<le> 10 * digit_value a + digit_value b \<and> 10 * digit_value a + digit_value b \<le> 31"
    using True by (simp add: day_text_def py_int_2)
  also have "\<dots> \<longleftrightarrow> (digit_value a = 3 \<and> digit_value b \<le> 1) \<or> digit_value a = 1 \<or> digit_value a = 2
                \<or> (digit_value a = 0 \<and> 1 \<le> digit_value b)"
    using r by arith
  also have "\<dots> \<longleftrightarrow> day_alternatives a b"
    using True by (simp only: day_alternatives_num)
  finally show ?thesis .
next
  case False
  have "day_text [a, b] \<longleftrightarrow> a = CHR '' '' \<and> nonzero_digit b"
    using False by (auto simp: day_text_def)
  also have "\<dots> \<longleftrightarrow> day_alternatives a b"
  proof
    assume "a = CHR '' '' \<and> nonzero_digit b"
    then show "day_alternatives a b" by (simp add: day_alternatives_def)
  next
    assume d: "day_alternatives a b"
    then have "a = CHR '' ''" using False day_alternatives_decimal by blast
    moreover from this have "\<not> decimal_char a" using decimal_not_space by blast
    ultimately show "a = CHR '' '' \<and> nonzero_digit b"
      using d unfolding day_alternatives_def set_01 set_12 is_char_iff(1,3) by blast
  qed
  finally show ?thesis .
qed

lemma month_text_1: "month_text [a] \<longleftrightarrow> nonzero_digit a"
proof (cases "decimal_char a")
  case True
  then show ?thesis
    using digit_value_range[of a] by (auto simp: month_text_def py_int_1 nonzero_digit_iff)
next
  case False
  then show ?thesis by (simp add: month_text_def nonzero_digit_iff)
qed

lemma month_alternatives_num:
  "month_alternatives a b \<longleftrightarrow>
     decimal_char a \<and> decimal_char b
     \<and> ((digit_value a = 1 \<and> digit_value b \<le> 2) \<or> (digit_value a = 0 \<and> 1 \<le> digit_value b))"
  unfolding month_alternatives_def set_012 is_char_iff(1,2) nonzero_digit_iff by blast

lemma month_text_2: "month_text [a, b] \<longleftrightarrow> month_alternatives a b"
proof (cases "decimal_char a \<and> decimal_char b")
  case True
  then have r: "0 \<le> digit_value a" "digit_value a \<le> 9" "0 \<le> digit_value b" "digit_value b \<le> 9"
    using digit_value_range by blast+
  have "month_text [a, b] \<longleftrightarrow> 1 \<le> 10 * digit_value a + digit_value b \<and> 10 * digit_value a + digit_value b \<le> 12"
    using True by (simp add: month_text_def py_int_2)
  also have "\<dots> \<longleftrightarrow> (digit_value a = 1 \<and> digit_value b \<le> 2) \<or> (digit_value a = 0 \<and> 1 \<le> digit_value b)"
    using r by arith
  also have "\<dots> \<longleftrightarrow> month_alternatives a b"
    using True by (simp only: month_alternatives_num simp_thms)
  finally show ?thesis .
next
  case False
  then show ?thesis
    unfolding month_alternatives_num by (auto simp: month_text_def)
qed

lemma text_lengths:
  "day_text t \<Longrightarrow> length t = 1 \<or> length t = 2"
  "month_text t \<Longrightarrow> length t = 1 \<or> length t = 2"
  by (auto simp: day_text_def month_text_def)

lemma length_1_or_2:
  "length t = 1 \<or> length t = 2 \<longleftrightarrow> (\<exists>a. t = [a]) \<or> (\<exists>a b. t = [a, b])"
  by (cases t; cases "tl t"; cases "tl (tl t)") auto

lemma re_d_iff: "(t, r) \<in> set (re_d s) \<longleftrightarrow> s = t @ r \<and> day_text t"
proof
  assume "(t, r) \<in> set (re_d s)"
  then have "(\<exists>a b. t = [a, b] \<and> s = a # b # r \<and> day_alternatives a b)
           \<or> (\<exists>a. t = [a] \<and> s = a # r \<and> nonzero_digit a)"
    unfolding re_d_def two_chars_def one_char_def day_alternatives_def
    by (auto split: list.splits if_splits)
  then show "s = t @ r \<and> day_text t"
    by (auto simp: day_text_1 day_text_2)
next
  assume a: "s = t @ r \<and> day_text t"
  then consider c where "t = [c]" | c d where "t = [c, d]"
    using text_lengths(1)[of t] length_1_or_2[of t] by blast
  then show "(t, r) \<in> set (re_d s)"
  proof cases
    case 1
    then show ?thesis using a
      by (simp add: day_text_1 re_d_def one_char_def)
  next
    case 2
    then have "day_alternatives c d" using a by (simp add: day_text_2)
    then show ?thesis using a 2
      unfolding re_d_def two_chars_def one_char_def day_alternatives_def
      by auto
  qed
qed

lemma re_m_iff: "(t, r) \<in> set (re_m s) \<longleftrightarrow> s = t @ r \<and> month_text t"
proof
  assume "(t, r) \<in> set (re_m s)"
  then have "(\<exists>a b. t = [a, b] \<and> s = a # b # r \<and> month_alternatives a b)
           \<or> (\<exists>a. t = [a] \<and> s = a # r \<and> nonzero_digit a)"
    unfolding re_m_def two_chars_def one_char_def month_alternatives_def
    by (auto split: list.splits if_splits)
  then show "s = t @ r \<and> month_text t"
    by (auto simp: month_text_1 month_text_2)
next
  assume a: "s = t @ r \<and> month_text t"
  then consider c where "t = [c]" | c d where "t = [c, d]"
    using text_lengths(2)[of t] length_1_or_2[of t] by blast
  then show "(t, r) \<in> set (re_m s)"
  proof cases
    case 1
    then show ?thesis using a
      by (simp add: month_text_1 re_m_def one_char_def)
  next
    case 2
    then have "month_alternatives c d" using a by (simp add: month_text_2)
    then show ?thesis using a 2
      unfolding re_m_def two_chars_def one_char_def month_alternatives_def
      by auto
  qed
qed

lemma re_Y_iff: "(t, r) \<in> set (re_Y s) \<longleftrightarrow> s = t @ r \<and> year_text t"
proof
  assume "(t, r) \<in> set (re_Y s)"
  then show "s = t @ r \<and> year_text t"
    unfolding re_Y_def year_text_def by (auto split: list.splits if_splits)
next
  assume a: "s = t @ r \<and> year_text t"
  then obtain a b c d where "t = [a, b, c, d]"
    unfolding year_text_def by (auto simp: length_Suc_conv numeral_eq_Suc)
  then show "(t, r) \<in> set (re_Y s)"
    using a unfolding re_Y_def year_text_def by simp
qed

lemma re_dot_iff: "r \<in> set (re_dot s) \<longleftrightarrow> s = CHR ''.'' # r"
  unfolding re_dot_def by (auto split: list.splits if_splits)


lemma no_dot:
  "day_text t \<Longrightarrow> CHR ''.'' \<notin> set t"
  "month_text t \<Longrightarrow> CHR ''.'' \<notin> set t"
proof -
  have d: "CHR ''.'' \<notin> set t" if "list_all decimal_char t" for t
    using that decimal_not_space by (auto simp: list_all_iff)
  show "month_text t \<Longrightarrow> CHR ''.'' \<notin> set t" using d by (simp add: month_text_def)
  show "CHR ''.'' \<notin> set t" if dt: "day_text t"
  proof -
    consider c where "t = [c]" | c e where "t = [c, e]"
      using text_lengths(1)[OF dt] length_1_or_2[of t] by blast
    then show ?thesis
    proof cases
      case 1
      then show ?thesis using dt decimal_not_space[of c] by (auto simp: day_text_1 nonzero_digit_iff)
    next
      case 2
      then have "day_alternatives c e" using dt by (simp add: day_text_2)
      then show ?thesis
        using 2 day_alternatives_decimal[of c e] decimal_not_space[of c] decimal_not_space[of e]
        by auto
    qed
  qed
qed

lemma re_matches_set:
  "c \<in> set (re_matches s) \<longleftrightarrow>
     (\<exists>p \<in> set (re_d s). \<exists>r2 \<in> set (re_dot (snd p)). \<exists>q \<in> set (re_m r2).
        \<exists>r4 \<in> set (re_dot (snd q)). \<exists>z \<in> set (re_Y r4). c = (fst p, fst q, fst z, snd z))"
  unfolding re_matches_def
  by (simp add: case_prod_beta image_iff)

lemma candidates_iff:
  "c \<in> set (re_matches s) \<longleftrightarrow> parses s c"
proof
  assume "c \<in> set (re_matches s)"
  then obtain p r2 q r4 z where m: "p \<in> set (re_d s)" "r2 \<in> set (re_dot (snd p))" "q \<in> set (re_m r2)"
    "r4 \<in> set (re_dot (snd q))" "z \<in> set (re_Y r4)" "c = (fst p, fst q, fst z, snd z)"
    unfolding re_matches_set by blast
  have "s = fst p @ snd p \<and> day_text (fst p)" using m(1) re_d_iff[of "fst p" "snd p" s] by simp
  moreover have "snd p = CHR ''.'' # r2" using m(2) by (simp add: re_dot_iff)
  moreover have "r2 = fst q @ snd q \<and> month_text (fst q)" using m(3) re_m_iff[of "fst q" "snd q" r2] by simp
  moreover have "snd q = CHR ''.'' # r4" using m(4) by (simp add: re_dot_iff)
  moreover have "r4 = fst z @ snd z \<and> year_text (fst z)" using m(5) re_Y_iff[of "fst z" "snd z" r4] by simp
  ultimately show "parses s c" unfolding m(6) parses_def by (simp add: case_prod_beta)
next
  assume "parses s c"
  then obtain d m y rest where c: "c = (d, m, y, rest)"
    and p: "s = d @ CHR ''.'' # m @ CHR ''.'' # y @ rest" "day_text d" "month_text m" "year_text y"
    by (cases c) (auto simp: parses_def)
  have "(d, CHR ''.'' # m @ CHR ''.'' # y @ rest) \<in> set (re_d s)"
    using p by (simp add: re_d_iff)
  moreover have "m @ CHR ''.'' # y @ rest \<in> set (re_dot (CHR ''.'' # m @ CHR ''.'' # y @ rest))"
    by (simp add: re_dot_iff)
  moreover have "(m, CHR ''.'' # y @ rest) \<in> set (re_m (m @ CHR ''.'' # y @ rest))"
    using p by (simp add: re_m_iff)
  moreover have "y @ rest \<in> set (re_dot (CHR ''.'' # y @ rest))"
    by (simp add: re_dot_iff)
  moreover have "(y, rest) \<in> set (re_Y (y @ rest))"
    using p by (simp add: re_Y_iff)
  ultimately show "c \<in> set (re_matches s)"
    unfolding re_matches_set c by force
qed

lemma split_at_first:
  "x \<notin> set a \<Longrightarrow> x \<notin> set b \<Longrightarrow> a @ x # u = b @ x # v \<Longrightarrow> a = b \<and> u = v"
proof (induction a arbitrary: b)
  case Nil
  then show ?case by (cases b) auto
next
  case (Cons h t)
  then show ?case by (cases b) auto
qed

lemma parses_unique:
  assumes "parses s c" "parses s c'"
  shows "c = c'"
proof -
  obtain d m y rest where c: "c = (d, m, y, rest)" by (cases c) auto
  obtain d' m' y' rest' where c': "c' = (d', m', y', rest')" by (cases c') auto
  have p: "s = d @ CHR ''.'' # m @ CHR ''.'' # y @ rest" "day_text d" "month_text m" "year_text y"
    using assms(1) unfolding parses_def c by simp_all
  have p': "s = d' @ CHR ''.'' # m' @ CHR ''.'' # y' @ rest'" "day_text d'" "month_text m'" "year_text y'"
    using assms(2) unfolding parses_def c' by simp_all
  have "d @ CHR ''.'' # m @ CHR ''.'' # y @ rest = d' @ CHR ''.'' # m' @ CHR ''.'' # y' @ rest'"
    using p(1)[symmetric] p'(1) by (rule trans)
  then have 1: "d = d' \<and> m @ CHR ''.'' # y @ rest = m' @ CHR ''.'' # y' @ rest'"
    by (rule split_at_first[OF no_dot(1)[OF p(2)] no_dot(1)[OF p'(2)]])
  then have "m @ CHR ''.'' # y @ rest = m' @ CHR ''.'' # y' @ rest'" ..
  then have 2: "m = m' \<and> y @ rest = y' @ rest'"
    by (rule split_at_first[OF no_dot(2)[OF p(3)] no_dot(2)[OF p'(3)]])
  then have "y @ rest = y' @ rest'" ..
  moreover have "length y = length y'" using p(4) p'(4) unfolding year_text_def by simp
  ultimately have 3: "y = y' \<and> rest = rest'"
    by simp
  show ?thesis unfolding c c' using 1 2 3 by (simp only: prod.inject simp_thms)
qed

lemma first_of_unique:
  assumes "\<And>x y. x \<in> set xs \<Longrightarrow> y \<in> set xs \<Longrightarrow> x = y"
  shows "(case xs of [] \<Rightarrow> None | x # _ \<Rightarrow> Some x) = Some c \<longleftrightarrow> c \<in> set xs"
  using assms by (cases xs) auto

lemma re_match_iff: "re_match s = Some c \<longleftrightarrow> parses s c"
proof -
  have u: "x = y" if "x \<in> set (re_matches s)" "y \<in> set (re_matches s)" for x y
    using that unfolding candidates_iff by (rule parses_unique)
  have "re_match s = Some c \<longleftrightarrow> c \<in> set (re_matches s)"
    unfolding re_match_def using u by (rule first_of_unique)
  then show ?thesis by (simp only: candidates_iff)
qed

lemma date_new_iff:
  "date_new y m d = Inr x \<longleftrightarrow> real_date y m d \<and> x = \<lparr>year = y, month = m, day = d\<rparr>"
  by (auto simp: date_new_def real_date_def MINYEAR_def MAXYEAR_def)

lemma strptime_iff:
  "strptime s = Inr x \<longleftrightarrow>
     (\<exists>d m y. s = d @ ''.'' @ m @ ''.'' @ y \<and> day_text d \<and> month_text m \<and> year_text y
        \<and> real_date (py_int y) (py_int m) (py_int d)
        \<and> x = \<lparr>year = py_int y, month = py_int m, day = py_int d\<rparr>)"
proof
  assume a: "strptime s = Inr x"
  then obtain d m y rest where c: "re_match s = Some (d, m, y, rest)"
    by (auto simp: strptime_def split: option.splits)
  then have "rest = []" "date_new (py_int y) (py_int m) (py_int d) = Inr x"
    using a by (auto simp: strptime_def split: if_splits)
  moreover have "parses s (d, m, y, rest)" using c by (simp add: re_match_iff)
  ultimately show "\<exists>d m y. s = d @ ''.'' @ m @ ''.'' @ y \<and> day_text d \<and> month_text m \<and> year_text y
        \<and> real_date (py_int y) (py_int m) (py_int d)
        \<and> x = \<lparr>year = py_int y, month = py_int m, day = py_int d\<rparr>"
    by (auto simp: parses_def date_new_iff)
next
  assume "\<exists>d m y. s = d @ ''.'' @ m @ ''.'' @ y \<and> day_text d \<and> month_text m \<and> year_text y
        \<and> real_date (py_int y) (py_int m) (py_int d)
        \<and> x = \<lparr>year = py_int y, month = py_int m, day = py_int d\<rparr>"
  then obtain d m y where p: "s = d @ ''.'' @ m @ ''.'' @ y" "day_text d" "month_text m" "year_text y"
    "real_date (py_int y) (py_int m) (py_int d)" "x = \<lparr>year = py_int y, month = py_int m, day = py_int d\<rparr>"
    by blast
  then have "parses s (d, m, y, [])" by (simp add: parses_def)
  then have "re_match s = Some (d, m, y, [])" by (simp add: re_match_iff)
  then show "strptime s = Inr x" using p(5,6) by (simp add: strptime_def date_new_iff)
qed

lemma Birthday_init_cases:
  "Birthday_init s = (if \<exists>x. strptime s = Inr x then Inr (Birthday s)
                      else Inl (ValueError ''Invalid date format. Use DD.MM.YYYY''))"
  by (cases "strptime s") (auto simp: Birthday_init_def)

lemma DD_MM_YYYY_shape:
  assumes "DD_MM_YYYY s"
  shows "s = take 2 s @ ''.'' @ take 2 (drop 3 s) @ ''.'' @ drop 6 s"
    "length (take 2 s) = 2" "length (take 2 (drop 3 s)) = 2" "length (drop 6 s) = 4"
proof -
  have l: "length s = 10" "s ! 2 = CHR ''.''" "s ! 5 = CHR ''.''"
    using assms by (simp_all add: DD_MM_YYYY_def)
  have a: "drop 2 s = CHR ''.'' # drop 3 s"
    using Cons_nth_drop_Suc[of 2 s] l by simp
  have b: "drop 3 s = take 2 (drop 3 s) @ drop 5 s"
    using append_take_drop_id[of 2 "drop 3 s"] by simp
  have c: "drop 5 s = CHR ''.'' # drop 6 s"
    using Cons_nth_drop_Suc[of 5 s] l by simp
  have "s = take 2 s @ drop 2 s" by simp
  also have "\<dots> = take 2 s @ CHR ''.'' # take 2 (drop 3 s) @ CHR ''.'' # drop 6 s"
    unfolding a using b c by simp
  finally show "s = take 2 s @ ''.'' @ take 2 (drop 3 s) @ ''.'' @ drop 6 s" by simp
  show "length (take 2 s) = 2" "length (take 2 (drop 3 s)) = 2" "length (drop 6 s) = 4"
    using l(1) by simp_all
qed

text \<open>
  What the constructor accepts. \<open>Birthday_init s\<close> succeeds exactly when \<open>s\<close> is a day, a dot, a
  month, a dot and a year, in the texts that \<^verbatim>\<open>strptime\<close> accepts for them (a day or a
  month may be written with one digit), and these denote a real calendar date of the
  years 1 to 9999. Every other string raises the \<^verbatim>\<open>ValueError\<close> of the constructor. In
  particular every string in the format DD.MM.YYYY that denotes a real date is accepted.
\<close>

lemma Birthday_init_accepts:
  "(Birthday_init s = Inr (Birthday s)
      \<longleftrightarrow> (\<exists>d m y. s = d @ ''.'' @ m @ ''.'' @ y \<and> day_text d \<and> month_text m \<and> year_text y
             \<and> real_date (py_int y) (py_int m) (py_int d)))
   \<and> (Birthday_init s \<noteq> Inr (Birthday s)
        \<longrightarrow> Birthday_init s = Inl (ValueError ''Invalid date format. Use DD.MM.YYYY''))
   \<and> (DD_MM_YYYY s \<and> real_date (py_int (drop 6 s)) (py_int (take 2 (drop 3 s))) (py_int (take 2 s))
        \<longrightarrow> Birthday_init s = Inr (Birthday s))"
proof -
  have 1: "Birthday_init s = Inr (Birthday s)
      \<longleftrightarrow> (\<exists>d m y. s = d @ ''.'' @ m @ ''.'' @ y \<and> day_text d \<and> month_text m \<and> year_text y
             \<and> real_date (py_int y) (py_int m) (py_int d))"
    unfolding Birthday_init_cases strptime_iff by auto
  have 2: "Birthday_init s \<noteq> Inr (Birthday s)
        \<longrightarrow> Birthday_init s = Inl (ValueError ''Invalid date format. Use DD.MM.YYYY'')"
    unfolding Birthday_init_cases by simp
  have 3: "Birthday_init s = Inr (Birthday s)"
    if a: "DD_MM_YYYY s" and r: "real_date (py_int (drop 6 s)) (py_int (take 2 (drop 3 s))) (py_int (take 2 s))"
  proof -
    note sh = DD_MM_YYYY_shape[OF a]
    have dec: "list_all decimal_char (take 2 s)" "list_all decimal_char (take 2 (drop 3 s))"
      "list_all decimal_char (drop 6 s)"
      using a by (simp_all add: DD_MM_YYYY_def)
    have "py_int (take 2 s) \<le> 31"
      using r dim_bounds(2)[of "py_int (take 2 (drop 3 s))" "py_int (drop 6 s)"]
      by (simp add: real_date_def)
    then have "day_text (take 2 s)"
      using r dec(1) sh(2) by (simp add: day_text_def real_date_def)
    moreover have "month_text (take 2 (drop 3 s))"
      using r dec(2) sh(3) by (simp add: month_text_def real_date_def)
    moreover have "year_text (drop 6 s)"
      using dec(3) sh(4) by (simp add: year_text_def)
    ultimately show ?thesis
      unfolding 1 using r sh(1) by blast
  qed
  show ?thesis using 1 2 3 by blast
qed


lemma Birthday_init_accepts_example:
  "DD_MM_YYYY ''10.06.1990''
   \<and> real_date (py_int (drop 6 ''10.06.1990'')) (py_int (take 2 (drop 3 ''10.06.1990'')))
         (py_int (take 2 ''10.06.1990''))
   \<and> Birthday_init ''10.06.1990'' = Inr (Birthday ''10.06.1990'')
   \<and> Birthday_init ''31.04.1990'' = Inl (ValueError ''Invalid date format. Use DD.MM.YYYY'')"
proof -
  have h1: "DD_MM_YYYY ''10.06.1990''" by code_simp
  have h2: "real_date (py_int (drop 6 ''10.06.1990'')) (py_int (take 2 (drop 3 ''10.06.1990'')))
         (py_int (take 2 ''10.06.1990''))"
    by code_simp
  have a: "Birthday_init ''10.06.1990'' = Inr (Birthday ''10.06.1990'')"
    by (rule Birthday_init_accepts [of "''10.06.1990''", THEN conjunct2, THEN conjunct2, THEN mp,
          OF conjI [OF h1 h2]])
  have n: "Birthday_init ''31.04.1990'' \<noteq> Inr (Birthday ''31.04.1990'')" by code_simp
  have b: "Birthday_init ''31.04.1990'' = Inl (ValueError ''Invalid date format. Use DD.MM.YYYY'')"
    by (rule Birthday_init_accepts [of "''31.04.1990''", THEN conjunct2, THEN conjunct1, THEN mp,
          OF n])
  show ?thesis by (intro conjI h1 h2 a b)
qed

text \<open>
  C5 fails on the code. The comments of the code require the format DD.MM.YYYY for the
  stored string. \<open>''1.1.2000''\<close> has a one-digit day and a one-digit month, so it is not in
  that format; \<^verbatim>\<open>strptime\<close> accepts it, and so \<open>Birthday_init\<close> accepts it and \<open>add_birthday\<close>
  stores it as it is.
\<close>

theorem Birthday_init_unpadded:
  "\<not> DD_MM_YYYY ''1.1.2000''
   \<and> strptime ''1.1.2000'' = Inr \<lparr>year = 2000, month = 1, day = 1\<rparr>
   \<and> Birthday_init ''1.1.2000'' = Inr (Birthday ''1.1.2000'')
   \<and> add_birthday (Record_init ''Ann'') ''1.1.2000''
        = (Inr (), \<lparr>name = Name ''Ann'', phones = [], birthday = Some (Birthday ''1.1.2000'')\<rparr>)"
  by code_simp

lemma add_birthday_birth_date:
  "add_birthday r s = (Inr (), r') \<Longrightarrow> birth_date r' \<noteq> None"
  by (auto simp: add_birthday_def Birthday_init_def birth_date_def split: sum.splits)


section \<open>The loop of get\_upcoming\_birthdays\<close>

lemma replace_year_Inr:
  "replace_year bd y = Inr x \<Longrightarrow> valid_date x \<and> x = bd\<lparr>year := y\<rparr>"
  by (cases bd) (auto simp: replace_year_def dest!: date_new_Inr)

lemma loop_body_anchor:
  assumes "replace_year bd (year today) = Inr bday0"
    and "(if date_lt bday0 today then replace_year bd (year today + 1) else Inr bday0) = Inr bday"
  shows "bday = anchored today bd" "valid_date bday"
  using assms replace_year_Inr[of bd "year today" bday0] replace_year_Inr[of bd "year today + 1" bday]
  by (auto simp: anchored_def split: if_splits)

lemma loop_body_cases:
  assumes "loop_body today limit r = Inr res"
  shows "(birth_date r = None \<and> res = None)
       \<or> (\<exists>bd. birth_date r = Some bd \<and> valid_date (anchored today bd)
            \<and> \<not> (date_le today (anchored today bd) \<and> date_le (anchored today bd) limit) \<and> res = None)
       \<or> (\<exists>bd g. birth_date r = Some bd \<and> valid_date (anchored today bd)
            \<and> date_le today (anchored today bd) \<and> date_le (anchored today bd) limit
            \<and> valid_date g \<and> toordinal g = toordinal (anchored today bd) + greeting_shift (anchored today bd)
            \<and> res = Some \<lparr>entry_name = name_value (name r), entry_birthday = g\<rparr>)"
proof (cases "birth_date r")
  case None
  then show ?thesis using assms
    by (auto simp: loop_body_def birth_date_def split: option.splits sum.splits)
next
  case (Some bd)
  then obtain b where b: "birthday r = Some b" "strptime (birthday_value b) = Inr bd"
    by (auto simp: birth_date_def split: option.splits sum.splits)
  obtain bday0 where b0: "replace_year bd (year today) = Inr bday0"
    using assms b by (auto simp: loop_body_def split: sum.splits)
  obtain bday where bd: "(if date_lt bday0 today then replace_year bd (year today + 1) else Inr bday0) = Inr bday"
    using assms b b0 by (simp add: loop_body_def split: sum.splits)
  note a = loop_body_anchor[OF b0 bd]
  have body: "loop_body today limit r =
      (if date_le today bday \<and> date_le bday limit then
         (case (if weekday bday = 5 then date_add bday 2
                else if weekday bday = 6 then date_add bday 1
                else Inr bday) of
            Inl e \<Rightarrow> Inl e
          | Inr greeting \<Rightarrow> Inr (Some \<lparr>entry_name = name_value (name r), entry_birthday = greeting\<rparr>))
       else Inr None)"
    using b b0 bd by (simp add: loop_body_def)
  show ?thesis
  proof (cases "date_le today bday \<and> date_le bday limit")
    case False
    then have "res = None" using assms unfolding body by (auto split: if_splits)
    with False Some a show ?thesis by auto
  next
    case True
    then obtain g where g: "(if weekday bday = 5 then date_add bday 2
                else if weekday bday = 6 then date_add bday 1
                else Inr bday) = Inr g"
      and res: "res = Some \<lparr>entry_name = name_value (name r), entry_birthday = g\<rparr>"
      using assms unfolding body by (auto split: sum.splits if_splits)
    have "valid_date g \<and> toordinal g = toordinal bday + greeting_shift bday"
      using g a(2) by (auto simp: greeting_shift_def split: if_splits dest: date_add_Inr)
    with True Some a res show ?thesis by auto
  qed
qed

lemma upcoming_loop_Inr:
  "upcoming_loop today limit rs acc = Inr res \<Longrightarrow>
     res = acc @ entries_of today limit rs \<and> (\<forall>r \<in> set rs. \<exists>x. loop_body today limit r = Inr x)"
proof (induction rs arbitrary: acc)
  case Nil
  then show ?case by (simp add: entries_of_def)
next
  case (Cons r rs)
  show ?case
  proof (cases "loop_body today limit r")
    case (Inl e)
    with Cons.prems show ?thesis by simp
  next
    case (Inr x)
    show ?thesis
    proof (cases x)
      case None
      with Inr Cons.prems Cons.IH[of acc] show ?thesis by (simp add: entries_of_def)
    next
      case (Some e)
      with Inr Cons.prems Cons.IH[of "acc @ [e]"] show ?thesis by (simp add: entries_of_def)
    qed
  qed
qed

lemma upcoming_loop_ok:
  "(\<forall>r \<in> set rs. \<exists>x. loop_body today limit r = Inr x) \<Longrightarrow>
     upcoming_loop today limit rs acc = Inr (acc @ entries_of today limit rs)"
proof (induction rs arbitrary: acc)
  case Nil
  then show ?case by (simp add: entries_of_def)
next
  case (Cons r rs)
  then obtain x where x: "loop_body today limit r = Inr x" by auto
  show ?case using Cons x by (cases x) (auto simp: entries_of_def)
qed

lemma get_upcoming_birthdays_Inr:
  assumes "get_upcoming_birthdays book today = Inr out"
  obtains limit where "date_add today 6 = Inr limit"
    and "out = sort_key (\<lambda>x. date_key (entry_birthday x)) (entries_of today limit (map snd book))"
    and "\<forall>r \<in> set (map snd book). \<exists>x. loop_body today limit r = Inr x"
proof -
  obtain limit where l: "date_add today 6 = Inr limit"
    using assms by (auto simp: get_upcoming_birthdays_def split: sum.splits)
  then obtain res where r: "upcoming_loop today limit (map snd book) [] = Inr res"
    and o: "out = sort_key (\<lambda>x. date_key (entry_birthday x)) res"
    using assms by (auto simp: get_upcoming_birthdays_def split: sum.splits)
  from upcoming_loop_Inr[OF r] l o that show ?thesis by simp
qed

lemma entries_of_iff:
  "e \<in> set (entries_of today limit rs) \<longleftrightarrow> (\<exists>r \<in> set rs. loop_body today limit r = Inr (Some e))"
proof -
  have "e \<in> set (case loop_body today limit r of Inr (Some e) \<Rightarrow> [e] | _ \<Rightarrow> [])
          \<longleftrightarrow> loop_body today limit r = Inr (Some e)" for r
    by (auto split: sum.splits option.splits)
  then show ?thesis by (simp add: entries_of_def)
qed

lemma book_wf_unique:
  assumes "book_wf book" "(k, r) \<in> set book" "(k', r') \<in> set book"
    "name_value (name r) = name_value (name r')"
  shows "r = r'"
proof -
  have "k = name_value (name r)" "k' = name_value (name r')"
    using assms(1,2,3) by (auto simp: book_wf_def list_all_iff)
  then have "k = k'" using assms(4) by simp
  moreover have "distinct (map fst book)" using assms(1) by (simp add: book_wf_def)
  ultimately show ?thesis using assms(2,3) by (auto dest: eq_key_imp_eq_value)
qed

lemma book_wf_add_record:
  "book_wf [] \<and> (book_wf b \<longrightarrow> book_wf (add_record b r))"
proof -
  have "list_all (\<lambda>(k, r). k = name_value (name r)) (AList.update (name_value (name r)) r b)"
    if "list_all (\<lambda>(k, r). k = name_value (name r)) b" for b :: AddressBook
    using that by (induction b) auto
  then show ?thesis
    by (auto simp: book_wf_def add_record_def distinct_update)
qed

lemma limit_window:
  assumes "valid_date today" "date_add today 6 = Inr limit" "valid_date a"
  shows "date_le today a \<and> date_le a limit \<longleftrightarrow> in_window today a"
  using date_add_Inr[OF assms(2)] assms(1,3)
  by (simp add: in_window_def date_le_iff)

lemma entry_of_record:
  assumes "valid_date today" "date_add today 6 = Inr limit"
    and "loop_body today limit r = Inr x" "birth_date r = Some bd"
  shows "valid_date (anchored today bd)"
    and "x \<noteq> None \<longleftrightarrow> in_window today (anchored today bd)"
    and "x = Some e \<Longrightarrow> entry_name e = name_value (name r) \<and> valid_date (entry_birthday e)
           \<and> toordinal (entry_birthday e) = toordinal (anchored today bd) + greeting_shift (anchored today bd)"
proof -
  from loop_body_cases[OF assms(3)] assms(4)
  have c: "(valid_date (anchored today bd)
            \<and> \<not> (date_le today (anchored today bd) \<and> date_le (anchored today bd) limit) \<and> x = None)
       \<or> (\<exists>g. valid_date (anchored today bd)
            \<and> date_le today (anchored today bd) \<and> date_le (anchored today bd) limit
            \<and> valid_date g \<and> toordinal g = toordinal (anchored today bd) + greeting_shift (anchored today bd)
            \<and> x = Some \<lparr>entry_name = name_value (name r), entry_birthday = g\<rparr>)"
    by auto
  then show v: "valid_date (anchored today bd)" by auto
  note w = limit_window[OF assms(1,2) v]
  from c w show "x \<noteq> None \<longleftrightarrow> in_window today (anchored today bd)" by auto
  from c show "x = Some e \<Longrightarrow> entry_name e = name_value (name r) \<and> valid_date (entry_birthday e)
           \<and> toordinal (entry_birthday e) = toordinal (anchored today bd) + greeting_shift (anchored today bd)"
    by auto
qed

lemma includes_iff_returned:
  assumes "valid_date today" "book_wf book" "get_upcoming_birthdays book today = Inr out"
    and "(k, r) \<in> set book" "birth_date r = Some bd"
  shows "(\<exists>e \<in> set out. entry_name e = name_value (name r))
           \<longleftrightarrow> in_window today (anchored today bd)"
proof -
  from assms(3) obtain limit where l: "date_add today 6 = Inr limit"
    and out: "out = sort_key (\<lambda>x. date_key (entry_birthday x)) (entries_of today limit (map snd book))"
    and ok: "\<forall>r \<in> set (map snd book). \<exists>x. loop_body today limit r = Inr x"
    by (rule get_upcoming_birthdays_Inr)
  have r: "r \<in> set (map snd book)" using assms(4) by force
  then obtain x where x: "loop_body today limit r = Inr x" using ok by blast
  note e = entry_of_record[OF assms(1) l x assms(5)]
  show ?thesis
  proof
    assume "\<exists>e \<in> set out. entry_name e = name_value (name r)"
    then obtain e where e1: "e \<in> set out" and e2: "entry_name e = name_value (name r)" by blast
    from e1 obtain k' r' where r': "(k', r') \<in> set book" "loop_body today limit r' = Inr (Some e)"
      unfolding out by (auto simp: entries_of_iff)
    have "entry_name e = name_value (name r')"
      using loop_body_cases[OF r'(2)] by auto
    then have "r = r'"
      using book_wf_unique[OF assms(2,4) r'(1)] e2 by simp
    then have "x = Some e" using x r'(2) by simp
    then show "in_window today (anchored today bd)" using e(2) by simp
  next
    assume "in_window today (anchored today bd)"
    then obtain e where "x = Some e" using e(2) by auto
    then have "e \<in> set out" "entry_name e = name_value (name r)"
      using x r e(3)[of e] unfolding out by (auto simp: entries_of_iff)
    then show "\<exists>e \<in> set out. entry_name e = name_value (name r)" by blast
  qed
qed

lemma weekday_shift:
  "weekday a = 5 \<Longrightarrow> toordinal g = toordinal a + 2 \<Longrightarrow> weekday g = 0"
  "weekday a = 6 \<Longrightarrow> toordinal g = toordinal a + 1 \<Longrightarrow> weekday g = 0"
  unfolding weekday_def by presburger+

text \<open>
  C2. Let the call return \<open>out\<close>, and let \<open>e\<close> be the entry of \<open>out\<close> for the record \<open>r\<close>
  with birthday \<open>bd\<close>. The anchored date lies in the window, unshifted. If it is a Saturday,
  the greeting date is the date two days later, a Monday; if it is a Sunday, the date one
  day later, a Monday; on every other weekday the greeting date is the anchored date.
\<close>

theorem greeting_date_shift:
  assumes "valid_date today" "book_wf book" "get_upcoming_birthdays book today = Inr out"
    and "(k, r) \<in> set book" "birth_date r = Some bd"
    and "e \<in> set out" "entry_name e = name_value (name r)"
  shows "in_window today (anchored today bd) \<and> valid_date (entry_birthday e)
       \<and> (weekday (anchored today bd) = 5 \<longrightarrow>
             toordinal (entry_birthday e) = toordinal (anchored today bd) + 2
             \<and> weekday (entry_birthday e) = 0)
       \<and> (weekday (anchored today bd) = 6 \<longrightarrow>
             toordinal (entry_birthday e) = toordinal (anchored today bd) + 1
             \<and> weekday (entry_birthday e) = 0)
       \<and> (weekday (anchored today bd) \<noteq> 5 \<and> weekday (anchored today bd) \<noteq> 6 \<longrightarrow>
             entry_birthday e = anchored today bd)"
proof -
  from assms(3) obtain limit where l: "date_add today 6 = Inr limit"
    and out: "out = sort_key (\<lambda>x. date_key (entry_birthday x)) (entries_of today limit (map snd book))"
    by (rule get_upcoming_birthdays_Inr)
  from assms(6) obtain k' r' where r': "(k', r') \<in> set book" "loop_body today limit r' = Inr (Some e)"
    unfolding out by (auto simp: entries_of_iff)
  have "entry_name e = name_value (name r')"
    using loop_body_cases[OF r'(2)] by auto
  then have "r = r'"
    using book_wf_unique[OF assms(2,4) r'(1)] assms(7) by simp
  then have x: "loop_body today limit r = Inr (Some e)" using r'(2) by simp
  note e = entry_of_record[OF assms(1) l x assms(5)]
  have g: "valid_date (entry_birthday e)"
    "toordinal (entry_birthday e) = toordinal (anchored today bd) + greeting_shift (anchored today bd)"
    using e(3) by simp_all
  have w: "in_window today (anchored today bd)" using e(2) by simp
  have "entry_birthday e = anchored today bd"
    if "weekday (anchored today bd) \<noteq> 5" "weekday (anchored today bd) \<noteq> 6"
    using that g e(1) by (intro toordinal_inj) (simp_all add: greeting_shift_def)
  moreover have "toordinal (entry_birthday e) = toordinal (anchored today bd) + 2 \<and> weekday (entry_birthday e) = 0"
    if "weekday (anchored today bd) = 5"
    using that g(2) weekday_shift(1)[of "anchored today bd" "entry_birthday e"]
    by (simp add: greeting_shift_def)
  moreover have "toordinal (entry_birthday e) = toordinal (anchored today bd) + 1 \<and> weekday (entry_birthday e) = 0"
    if "weekday (anchored today bd) = 6"
    using that g(2) weekday_shift(2)[of "anchored today bd" "entry_birthday e"]
    by (simp add: greeting_shift_def)
  ultimately show ?thesis using w g(1) by blast
qed

theorem greeting_date_shift_witness:
  "valid_date june_9 \<and> book_wf [(''Bob'', bob)]
   \<and> get_upcoming_birthdays [(''Bob'', bob)] june_9
        = Inr [\<lparr>entry_name = ''Bob'', entry_birthday = june_17\<rparr>]
   \<and> (''Bob'', bob) \<in> set [(''Bob'', bob)]
   \<and> birth_date bob = Some \<lparr>year = 1990, month = 6, day = 15\<rparr>
   \<and> \<lparr>entry_name = ''Bob'', entry_birthday = june_17\<rparr>
        \<in> set [\<lparr>entry_name = ''Bob'', entry_birthday = june_17\<rparr>]
   \<and> entry_name \<lparr>entry_name = ''Bob'', entry_birthday = june_17\<rparr> = name_value (name bob)
   \<and> weekday (anchored june_9 \<lparr>year = 1990, month = 6, day = 15\<rparr>) = 5
   \<and> toordinal june_17 = toordinal (anchored june_9 \<lparr>year = 1990, month = 6, day = 15\<rparr>) + 2
   \<and> weekday june_17 = 0"
proof -
  have h1: "valid_date june_9" by code_simp
  have h2: "book_wf [(''Bob'', bob)]" by code_simp
  have h3: "get_upcoming_birthdays [(''Bob'', bob)] june_9
        = Inr [\<lparr>entry_name = ''Bob'', entry_birthday = june_17\<rparr>]"
    by code_simp
  have h4: "(''Bob'', bob) \<in> set [(''Bob'', bob)]" by simp
  have h5: "birth_date bob = Some \<lparr>year = 1990, month = 6, day = 15\<rparr>" by code_simp
  have h6: "\<lparr>entry_name = ''Bob'', entry_birthday = june_17\<rparr>
        \<in> set [\<lparr>entry_name = ''Bob'', entry_birthday = june_17\<rparr>]"
    by simp
  have h7: "entry_name \<lparr>entry_name = ''Bob'', entry_birthday = june_17\<rparr> = name_value (name bob)"
    by (simp add: bob_def)
  have sat: "weekday (anchored june_9 \<lparr>year = 1990, month = 6, day = 15\<rparr>) = 5" by code_simp
  have "weekday (anchored june_9 \<lparr>year = 1990, month = 6, day = 15\<rparr>) = 5 \<longrightarrow>
      toordinal (entry_birthday \<lparr>entry_name = ''Bob'', entry_birthday = june_17\<rparr>)
        = toordinal (anchored june_9 \<lparr>year = 1990, month = 6, day = 15\<rparr>) + 2
      \<and> weekday (entry_birthday \<lparr>entry_name = ''Bob'', entry_birthday = june_17\<rparr>) = 0"
    by (rule greeting_date_shift [OF h1 h2 h3 h4 h5 h6 h7, THEN conjunct2, THEN conjunct2,
          THEN conjunct1])
  then have g: "toordinal june_17 = toordinal (anchored june_9 \<lparr>year = 1990, month = 6, day = 15\<rparr>) + 2"
      "weekday june_17 = 0"
    using sat by simp_all
  show ?thesis by (intro conjI h1 h2 h3 h4 h5 h6 h7 sat g)
qed

lemma greeting_range_general:
  assumes "valid_date today" "get_upcoming_birthdays book today = Inr out" "e \<in> set out"
  shows "valid_date (entry_birthday e) \<and> toordinal today \<le> toordinal (entry_birthday e)
       \<and> toordinal (entry_birthday e) \<le> toordinal today + 8"
proof -
  from assms(2) obtain limit where l: "date_add today 6 = Inr limit"
    and out: "out = sort_key (\<lambda>x. date_key (entry_birthday x)) (entries_of today limit (map snd book))"
    by (rule get_upcoming_birthdays_Inr)
  from assms(3) obtain r where r: "loop_body today limit r = Inr (Some e)"
    unfolding out by (auto simp: entries_of_iff)
  from loop_body_cases[OF r] obtain bd where bd: "birth_date r = Some bd" by auto
  note e = entry_of_record[OF assms(1) l r bd]
  have "in_window today (anchored today bd)" using e(2) by simp
  moreover have "0 \<le> greeting_shift (anchored today bd)" "greeting_shift (anchored today bd) \<le> 2"
    by (simp_all add: greeting_shift_def)
  ultimately show ?thesis using e(3)[of e] by (simp add: in_window_def)
qed

lemma upcoming_sorted_general:
  assumes "get_upcoming_birthdays book today = Inr out"
  shows "sorted (map (\<lambda>e. date_key (entry_birthday e)) out)"
  using assms by (auto elim!: get_upcoming_birthdays_Inr simp: sorted_sort_key)

lemma upcoming_sorted_ordinal:
  assumes "valid_date today" "get_upcoming_birthdays book today = Inr out"
  shows "sorted (map (\<lambda>e. toordinal (entry_birthday e)) out)"
proof -
  have "sorted_wrt (\<lambda>x y. date_key (entry_birthday x) \<le> date_key (entry_birthday y)) out"
    using upcoming_sorted_general[OF assms(2)] by (simp add: sorted_map)
  then have "sorted_wrt (\<lambda>x y. toordinal (entry_birthday x) \<le> toordinal (entry_birthday y)) out"
  proof (rule sorted_wrt_mono_rel[rotated])
    fix x y assume "x \<in> set out" "y \<in> set out"
      and "date_key (entry_birthday x) \<le> date_key (entry_birthday y)"
    then show "toordinal (entry_birthday x) \<le> toordinal (entry_birthday y)"
      using greeting_range_general[OF assms] date_le_iff[of "entry_birthday x" "entry_birthday y"]
      by (simp add: date_le_def)
  qed
  then show ?thesis by (simp add: sorted_map)
qed

lemma no_birthdays_empty:
  assumes "valid_date today" "toordinal today + 6 \<le> MAXORDINAL"
    and "list_all (\<lambda>(k, r). birthday r = None) book"
  shows "get_upcoming_birthdays book today = Inr []"
proof -
  have "0 < toordinal today + 6" using toordinal_range(1)[OF assms(1)] by simp
  then obtain limit where l: "date_add today 6 = Inr limit"
    using date_add_ok[of today 6] assms(2) by blast
  have b: "loop_body today limit r = Inr None" if "r \<in> set (map snd book)" for r
    using that assms(3) by (auto simp: loop_body_def list_all_iff)
  then have "upcoming_loop today limit (map snd book) [] = Inr ([] @ entries_of today limit (map snd book))"
    by (intro upcoming_loop_ok) auto
  moreover have "entries_of today limit (map snd book) = []"
    using b by (auto simp: entries_of_def)
  ultimately show ?thesis by (simp add: get_upcoming_birthdays_def l)
qed


text \<open>
  C9, as the code has it. The sequence that the call returns is sorted in ascending order
  of the greeting dates, as dates and as day numbers. When no record of the book has a
  birthday and today + 6 days is still a date, that is, today is 25 December 9999 at the
  latest, the call returns the empty sequence.
\<close>

theorem upcoming_sorted:
  "(get_upcoming_birthdays book today = Inr out \<longrightarrow>
      sorted (map (\<lambda>e. date_key (entry_birthday e)) out))
   \<and> (valid_date today \<and> get_upcoming_birthdays book today = Inr out \<longrightarrow>
        sorted (map (\<lambda>e. toordinal (entry_birthday e)) out))
   \<and> (valid_date today \<and> toordinal today + 6 \<le> MAXORDINAL
        \<and> list_all (\<lambda>(k, r). birthday r = None) book \<longrightarrow>
        get_upcoming_birthdays book today = Inr [])"
  using upcoming_sorted_general [of book today out] upcoming_sorted_ordinal [of today book out]
    no_birthdays_empty [of today book]
  by blast

theorem upcoming_sorted_witness:
  "valid_date june_9
   \<and> get_upcoming_birthdays [(''Bob'', bob), (''Alice'', alice)] june_9
        = Inr [\<lparr>entry_name = ''Alice'', entry_birthday = june_10\<rparr>,
               \<lparr>entry_name = ''Bob'', entry_birthday = june_17\<rparr>]
   \<and> sorted (map (\<lambda>e. toordinal (entry_birthday e))
        [\<lparr>entry_name = ''Alice'', entry_birthday = june_10\<rparr>,
         \<lparr>entry_name = ''Bob'', entry_birthday = june_17\<rparr>])
   \<and> toordinal june_9 + 6 \<le> MAXORDINAL
   \<and> list_all (\<lambda>(k, r). birthday r = None) [(''Carl'', Record_init ''Carl'')]
   \<and> get_upcoming_birthdays [(''Carl'', Record_init ''Carl'')] june_9 = Inr []"
proof -
  have h1: "valid_date june_9" by code_simp
  have h2: "get_upcoming_birthdays [(''Bob'', bob), (''Alice'', alice)] june_9
        = Inr [\<lparr>entry_name = ''Alice'', entry_birthday = june_10\<rparr>,
               \<lparr>entry_name = ''Bob'', entry_birthday = june_17\<rparr>]"
    by code_simp
  have h3: "toordinal june_9 + 6 \<le> MAXORDINAL" by code_simp
  have h4: "list_all (\<lambda>(k, r). birthday r = None) [(''Carl'', Record_init ''Carl'')]"
    by (simp add: Record_init_def)
  have s: "sorted (map (\<lambda>e. toordinal (entry_birthday e))
        [\<lparr>entry_name = ''Alice'', entry_birthday = june_10\<rparr>,
         \<lparr>entry_name = ''Bob'', entry_birthday = june_17\<rparr>])"
    by (rule upcoming_sorted [of "[(''Bob'', bob), (''Alice'', alice)]" june_9
          "[\<lparr>entry_name = ''Alice'', entry_birthday = june_10\<rparr>,
            \<lparr>entry_name = ''Bob'', entry_birthday = june_17\<rparr>]",
          THEN conjunct2, THEN conjunct1, THEN mp, OF conjI [OF h1 h2]])
  have e: "get_upcoming_birthdays [(''Carl'', Record_init ''Carl'')] june_9 = Inr []"
    by (rule upcoming_sorted [of "[(''Carl'', Record_init ''Carl'')]" june_9 "[]",
          THEN conjunct2, THEN conjunct2, THEN mp, OF conjI [OF h1 conjI [OF h3 h4]]])
  show ?thesis by (intro conjI h1 h2 s h3 h4 e)
qed

text \<open>
  C9 as stated fails: on 26 December 9999 there is no date six days later,
  \<^verbatim>\<open>today + timedelta(days=6)\<close> raises \<^verbatim>\<open>OverflowError\<close>, and the call on the empty book
  raises instead of returning the empty sequence.
\<close>

theorem upcoming_overflow_counterexample:
  "valid_date \<lparr>year = 9999, month = 12, day = 26\<rparr>
   \<and> get_upcoming_birthdays [] \<lparr>year = 9999, month = 12, day = 26\<rparr>
        = Inl (OverflowError ''date value out of range'')"
  by code_simp

lemma saturday_example:
  "get_upcoming_birthdays [(''Bob'', bob)] june_9
        = Inr [\<lparr>entry_name = ''Bob'', entry_birthday = june_17\<rparr>]
   \<and> weekday (anchored june_9 \<lparr>year = 1990, month = 6, day = 15\<rparr>) = 5
   \<and> toordinal (anchored june_9 \<lparr>year = 1990, month = 6, day = 15\<rparr>) = toordinal june_9 + 6
   \<and> toordinal june_17 = toordinal june_9 + 8"
  by code_simp

text \<open>
  C10. Every greeting date that the call returns is a date from today to today + 8 days.
  The bound is reached: on Sunday 9 June 2024 the birthday 15.06.1990 is anchored to
  Saturday 15 June, which is today + 6 days, and its greeting date is Monday 17 June, which
  is today + 8 days.
\<close>

theorem greeting_date_range:
  "(valid_date today \<and> get_upcoming_birthdays book today = Inr out \<and> e \<in> set out \<longrightarrow>
      valid_date (entry_birthday e) \<and> toordinal today \<le> toordinal (entry_birthday e)
      \<and> toordinal (entry_birthday e) \<le> toordinal today + 8)
   \<and> (get_upcoming_birthdays [(''Bob'', bob)] june_9
          = Inr [\<lparr>entry_name = ''Bob'', entry_birthday = june_17\<rparr>]
        \<and> weekday (anchored june_9 \<lparr>year = 1990, month = 6, day = 15\<rparr>) = 5
        \<and> toordinal (anchored june_9 \<lparr>year = 1990, month = 6, day = 15\<rparr>) = toordinal june_9 + 6
        \<and> toordinal june_17 = toordinal june_9 + 8)"
proof (rule conjI)
  show "valid_date today \<and> get_upcoming_birthdays book today = Inr out \<and> e \<in> set out \<longrightarrow>
      valid_date (entry_birthday e) \<and> toordinal today \<le> toordinal (entry_birthday e)
      \<and> toordinal (entry_birthday e) \<le> toordinal today + 8"
    using greeting_range_general [of today book out e] by blast
qed (rule saturday_example)

theorem greeting_date_range_witness:
  "valid_date june_8
   \<and> get_upcoming_birthdays [(''Alice'', alice)] june_8
        = Inr [\<lparr>entry_name = ''Alice'', entry_birthday = june_10\<rparr>]
   \<and> \<lparr>entry_name = ''Alice'', entry_birthday = june_10\<rparr>
        \<in> set [\<lparr>entry_name = ''Alice'', entry_birthday = june_10\<rparr>]
   \<and> toordinal june_8 \<le> toordinal june_10 \<and> toordinal june_10 \<le> toordinal june_8 + 8"
proof -
  have h1: "valid_date june_8" by code_simp
  have h2: "get_upcoming_birthdays [(''Alice'', alice)] june_8
        = Inr [\<lparr>entry_name = ''Alice'', entry_birthday = june_10\<rparr>]"
    by code_simp
  have h3: "\<lparr>entry_name = ''Alice'', entry_birthday = june_10\<rparr>
        \<in> set [\<lparr>entry_name = ''Alice'', entry_birthday = june_10\<rparr>]"
    by simp
  have "valid_date (entry_birthday \<lparr>entry_name = ''Alice'', entry_birthday = june_10\<rparr>)
      \<and> toordinal june_8 \<le> toordinal (entry_birthday \<lparr>entry_name = ''Alice'', entry_birthday = june_10\<rparr>)
      \<and> toordinal (entry_birthday \<lparr>entry_name = ''Alice'', entry_birthday = june_10\<rparr>)
          \<le> toordinal june_8 + 8"
    by (rule greeting_date_range [of june_8 "[(''Alice'', alice)]"
          "[\<lparr>entry_name = ''Alice'', entry_birthday = june_10\<rparr>]"
          "\<lparr>entry_name = ''Alice'', entry_birthday = june_10\<rparr>",
          THEN conjunct1, THEN mp, OF conjI [OF h1 conjI [OF h2 h3]]])
  then have r: "toordinal june_8 \<le> toordinal june_10" "toordinal june_10 \<le> toordinal june_8 + 8"
    by simp_all
  show ?thesis by (intro conjI h1 h2 h3 r)
qed

subsection \<open>When the call returns\<close>

text \<open>
  The call returns whenever today is a date before the year 9999 and no birthday of the book
  is a 29 February.
\<close>

lemma strptime_valid: "strptime s = Inr x \<Longrightarrow> valid_date x"
  by (auto simp: strptime_def split: option.splits if_splits dest: date_new_Inr)

lemma replace_year_ok:
  assumes "valid_date bd" "\<not> (month bd = 2 \<and> day bd = 29)" "1 \<le> y" "y \<le> 9999"
  shows "replace_year bd y = Inr (bd\<lparr>year := y\<rparr>)"
proof -
  have m: "1 \<le> month bd" "month bd \<le> 12" "1 \<le> day bd" "day bd \<le> days_in_month (year bd) (month bd)"
    using assms(1) by (simp_all add: valid_date_def)
  have "day bd \<le> days_in_month y (month bd)"
  proof (cases "month bd = 2")
    case True
    then have "day bd \<le> 28" using m(4) assms(2) by (simp add: dim_values split: if_splits)
    then show ?thesis using True by (simp add: dim_values)
  next
    case False
    then show ?thesis using m(4) by (simp add: days_in_month_def)
  qed
  then show ?thesis
    using m assms(3,4) by (cases bd) (simp add: replace_year_def date_new_def MINYEAR_def MAXYEAR_def)
qed

lemma year_before_max:
  assumes "valid_date today" "year today < 9999"
  shows "toordinal today + 8 \<le> MAXORDINAL"
proof -
  have v: "1 \<le> month today" "month today \<le> 12" "1 \<le> day today"
    "day today \<le> days_in_month (year today) (month today)"
    using assms(1) by (simp_all add: valid_date_def)
  have "toordinal today \<le> days_before_year (year today + 1)"
    unfolding toordinal_def using v by (intro ymd2ord_bounds) auto
  also have "\<dots> \<le> days_before_year 9999"
    using dby_mono[of "year today + 1" 9999] assms(2) by simp
  also have "\<dots> = MAXORDINAL - 365" by (simp add: days_before_year_def MAXORDINAL_def)
  finally show ?thesis by simp
qed

lemma loop_body_returns:
  assumes "valid_date today" "year today < 9999" "date_add today 6 = Inr limit"
    and "case birth_date r of None \<Rightarrow> True | Some bd \<Rightarrow> \<not> (month bd = 2 \<and> day bd = 29)"
  shows "\<exists>x. loop_body today limit r = Inr x"
proof (cases "birth_date r")
  case None
  then show ?thesis
    by (auto simp: loop_body_def birth_date_def split: option.splits sum.splits)
next
  case (Some bd)
  then obtain b where b: "birthday r = Some b" "strptime (birthday_value b) = Inr bd"
    by (auto simp: birth_date_def split: option.splits sum.splits)
  have vbd: "valid_date bd" using b(2) by (rule strptime_valid)
  have nl: "\<not> (month bd = 2 \<and> day bd = 29)" using assms(4) Some by simp
  have y: "1 \<le> year today" "year today \<le> 9999" "1 \<le> year today + 1" "year today + 1 \<le> 9999"
    using assms(1,2) by (simp_all add: valid_date_def MINYEAR_def)
  note r0 = replace_year_ok[OF vbd nl y(1,2)]
  note r1 = replace_year_ok[OF vbd nl y(3,4)]
  define bday where "bday = anchored today bd"
  have a: "(if date_lt (bd\<lparr>year := year today\<rparr>) today then replace_year bd (year today + 1)
            else Inr (bd\<lparr>year := year today\<rparr>)) = Inr bday"
    using r1 by (simp add: bday_def anchored_def)
  have vb: "valid_date bday"
    using loop_body_anchor(2)[OF r0 a] .
  have body: "loop_body today limit r =
      (if date_le today bday \<and> date_le bday limit then
         (case (if weekday bday = 5 then date_add bday 2
                else if weekday bday = 6 then date_add bday 1
                else Inr bday) of
            Inl e \<Rightarrow> Inl e
          | Inr greeting \<Rightarrow> Inr (Some \<lparr>entry_name = name_value (name r), entry_birthday = greeting\<rparr>))
       else Inr None)"
    using b r0 a by (simp add: loop_body_def)
  show ?thesis
  proof (cases "date_le today bday \<and> date_le bday limit")
    case False
    then show ?thesis unfolding body by auto
  next
    case True
    then have "in_window today bday" using limit_window[OF assms(1,3) vb] by simp
    then have "toordinal bday \<le> toordinal today + 6" "1 \<le> toordinal bday"
      using toordinal_range(1)[OF vb] by (simp_all add: in_window_def)
    then have "0 < toordinal bday + 2" "toordinal bday + 2 \<le> MAXORDINAL"
      "0 < toordinal bday + 1" "toordinal bday + 1 \<le> MAXORDINAL"
      using year_before_max[OF assms(1,2)] by simp_all
    then obtain g2 g1 where "date_add bday 2 = Inr g2" "date_add bday 1 = Inr g1"
      using date_add_ok[of bday 2] date_add_ok[of bday 1] by blast
    then show ?thesis unfolding body using True by auto
  qed
qed

lemma upcoming_returns:
  assumes "valid_date today" "year today < 9999" "no_leap_day book"
  shows "\<exists>out. get_upcoming_birthdays book today = Inr out"
proof -
  have "0 < toordinal today + 6" "toordinal today + 6 \<le> MAXORDINAL"
    using toordinal_range(1)[OF assms(1)] year_before_max[OF assms(1,2)] by simp_all
  then obtain limit where l: "date_add today 6 = Inr limit"
    using date_add_ok[of today 6] by blast
  have "\<forall>r \<in> set (map snd book). \<exists>x. loop_body today limit r = Inr x"
    using assms(3) loop_body_returns[OF assms(1,2) l]
    by (auto simp: no_leap_day_def list_all_iff)
  then have "upcoming_loop today limit (map snd book) [] = Inr ([] @ entries_of today limit (map snd book))"
    by (rule upcoming_loop_ok)
  then show ?thesis by (simp add: get_upcoming_birthdays_def l)
qed

text \<open>
  C1, as the code has it. Whenever the call returns a sequence \<open>out\<close>, for every record \<open>r\<close>
  of the book whose birthday is the date \<open>bd\<close>: \<open>out\<close> holds an entry for \<open>r\<close> if and only if
  the birthday, re-anchored to the current year, or to the next year when that falls
  before today, is one of the seven days from today to today + 6 days. The call returns a
  sequence whenever today is a date before the year 9999 and no birthday of the book is a
  29 February.
\<close>

theorem upcoming_includes_iff:
  "(valid_date today \<and> book_wf book \<and> get_upcoming_birthdays book today = Inr out
      \<and> (k, r) \<in> set book \<and> birth_date r = Some bd \<longrightarrow>
      ((\<exists>e \<in> set out. entry_name e = name_value (name r))
         \<longleftrightarrow> in_window today (anchored today bd)))
   \<and> (valid_date today \<and> year today < 9999 \<and> no_leap_day book \<longrightarrow>
        (\<exists>res. get_upcoming_birthdays book today = Inr res))"
proof (rule conjI)
  show "valid_date today \<and> book_wf book \<and> get_upcoming_birthdays book today = Inr out
      \<and> (k, r) \<in> set book \<and> birth_date r = Some bd \<longrightarrow>
      ((\<exists>e \<in> set out. entry_name e = name_value (name r))
         \<longleftrightarrow> in_window today (anchored today bd))"
    using includes_iff_returned [of today book out k r bd] by blast
  show "valid_date today \<and> year today < 9999 \<and> no_leap_day book \<longrightarrow>
        (\<exists>res. get_upcoming_birthdays book today = Inr res)"
    using upcoming_returns [of today book] by blast
qed

theorem upcoming_includes_iff_witness:
  "valid_date june_8 \<and> book_wf [(''Alice'', alice)]
   \<and> get_upcoming_birthdays [(''Alice'', alice)] june_8
        = Inr [\<lparr>entry_name = ''Alice'', entry_birthday = june_10\<rparr>]
   \<and> (''Alice'', alice) \<in> set [(''Alice'', alice)]
   \<and> birth_date alice = Some \<lparr>year = 1990, month = 6, day = 10\<rparr>
   \<and> year june_8 < 9999 \<and> no_leap_day [(''Alice'', alice)]
   \<and> (\<exists>e \<in> set [\<lparr>entry_name = ''Alice'', entry_birthday = june_10\<rparr>].
          entry_name e = name_value (name alice))
   \<and> in_window june_8 (anchored june_8 \<lparr>year = 1990, month = 6, day = 10\<rparr>)
   \<and> (\<exists>res. get_upcoming_birthdays [(''Alice'', alice)] june_8 = Inr res)"
proof -
  have h1: "valid_date june_8" by code_simp
  have h2: "book_wf [(''Alice'', alice)]" by code_simp
  have h3: "get_upcoming_birthdays [(''Alice'', alice)] june_8
        = Inr [\<lparr>entry_name = ''Alice'', entry_birthday = june_10\<rparr>]"
    by code_simp
  have h4: "(''Alice'', alice) \<in> set [(''Alice'', alice)]" by simp
  have h5: "birth_date alice = Some \<lparr>year = 1990, month = 6, day = 10\<rparr>" by code_simp
  have h6: "year june_8 < 9999" by (simp add: june_8_def)
  have h7: "no_leap_day [(''Alice'', alice)]" by code_simp
  have i: "\<exists>e \<in> set [\<lparr>entry_name = ''Alice'', entry_birthday = june_10\<rparr>].
          entry_name e = name_value (name alice)"
    by (simp add: alice_def)
  have "(\<exists>e \<in> set [\<lparr>entry_name = ''Alice'', entry_birthday = june_10\<rparr>].
          entry_name e = name_value (name alice))
      \<longleftrightarrow> in_window june_8 (anchored june_8 \<lparr>year = 1990, month = 6, day = 10\<rparr>)"
    by (rule upcoming_includes_iff [of june_8 "[(''Alice'', alice)]"
          "[\<lparr>entry_name = ''Alice'', entry_birthday = june_10\<rparr>]" "''Alice''" alice
          "\<lparr>year = 1990, month = 6, day = 10\<rparr>",
          THEN conjunct1, THEN mp,
          OF conjI [OF h1 conjI [OF h2 conjI [OF h3 conjI [OF h4 h5]]]]])
  then have w: "in_window june_8 (anchored june_8 \<lparr>year = 1990, month = 6, day = 10\<rparr>)"
    using i by (rule iffD1)
  have x: "\<exists>res. get_upcoming_birthdays [(''Alice'', alice)] june_8 = Inr res"
    by (rule upcoming_includes_iff [of june_8 "[(''Alice'', alice)]"
          "[\<lparr>entry_name = ''Alice'', entry_birthday = june_10\<rparr>]" "''Alice''" alice
          "\<lparr>year = 1990, month = 6, day = 10\<rparr>",
          THEN conjunct2, THEN mp, OF conjI [OF h1 conjI [OF h6 h7]]])
  show ?thesis by (intro conjI h1 h2 h3 h4 h5 h6 h7 i w x)
qed

text \<open>
  C1 as stated fails: on 26 December 9999 the birthday 27.12.1990 of the only record is
  anchored to the next day, inside the seven days from today, but there is no date six
  days after today, \<^verbatim>\<open>today + timedelta(days=6)\<close> raises \<^verbatim>\<open>OverflowError\<close> before the loop,
  and no sequence includes the record.
\<close>

theorem includes_year_9999_counterexample:
  "valid_date \<lparr>year = 9999, month = 12, day = 26\<rparr>
   \<and> book_wf [(''Zed'', zed)]
   \<and> birth_date zed = Some \<lparr>year = 1990, month = 12, day = 27\<rparr>
   \<and> in_window \<lparr>year = 9999, month = 12, day = 26\<rparr>
        (anchored \<lparr>year = 9999, month = 12, day = 26\<rparr> \<lparr>year = 1990, month = 12, day = 27\<rparr>)
   \<and> get_upcoming_birthdays [(''Zed'', zed)] \<lparr>year = 9999, month = 12, day = 26\<rparr>
        = Inl (OverflowError ''date value out of range'')"
  by code_simp

text \<open>
  On the other hand, a birthday on 29 February makes every call in a year that is no leap
  year raise.
\<close>

lemma leap_day_always_raises:
  assumes "\<not> is_leap (year today)" "(k, r) \<in> set book" "birth_date r = Some bd"
    and "month bd = 2" "day bd = 29"
  shows "\<exists>e. get_upcoming_birthdays book today = Inl e"
proof (cases "get_upcoming_birthdays book today")
  case (Inr out)
  then obtain limit where "\<forall>r \<in> set (map snd book). \<exists>x. loop_body today limit r = Inr x"
    by (rule get_upcoming_birthdays_Inr)
  moreover have "r \<in> set (map snd book)" using assms(2) by force
  ultimately obtain x where x: "loop_body today limit r = Inr x" by blast
  obtain b where b: "birthday r = Some b" "strptime (birthday_value b) = Inr bd"
    using assms(3) by (auto simp: birth_date_def split: option.splits sum.splits)
  have "replace_year bd (year today) = Inl (ValueError ''day is out of range for month'')
      \<or> replace_year bd (year today)
          = Inl (ValueError (''year '' @ str_int (year today) @ '' is out of range''))"
    using assms(1,4,5) by (simp add: replace_year_def date_new_def dim_values)
  then show ?thesis using x b by (auto simp: loop_body_def)
qed blast

text \<open>
  C3 fails on the code. The birthday 29.02.2000 is accepted by the constructor; in 2023,
  which is no leap year, \<^verbatim>\<open>bday_date.replace(year=today.year)\<close> is outside the
  \<^verbatim>\<open>try\<close> block and raises \<^verbatim>\<open>ValueError\<close>, and so does the call.
\<close>

theorem leap_day_raises:
  "add_birthday (Record_init ''Eve'') ''29.02.2000'' = (Inr (), eve)
   \<and> valid_date \<lparr>year = 2023, month = 3, day = 1\<rparr>
   \<and> get_upcoming_birthdays (add_record [] eve) \<lparr>year = 2023, month = 3, day = 1\<rparr>
        = Inl (ValueError ''day is out of range for month'')"
  by code_simp


section \<open>Phone validation\<close>

lemma find_phone_loop_None:
  "number \<notin> phone_value ` set ps \<Longrightarrow> find_phone_loop ps number = None"
  by (induction ps) auto

lemma find_phone_loop_Some:
  "find_phone_loop ps number = Some p \<Longrightarrow> p \<in> set ps \<and> phone_value p = number"
  by (induction ps) (auto split: if_splits)

lemma Phone_init_valid:
  "Phone_init v = Inr p \<Longrightarrow> validate (phone_value p)"
  by (auto simp: Phone_init_def split: if_splits)

lemma Phone_init_cases:
  "Phone_init v =
     (if length v = 10 \<and> list_all isdigit_char v then Inr (Phone v)
      else Inl (ValueError ''Phone number must contain exactly 10 digits.''))"
  by (auto simp: Phone_init_def validate_def isdigit_def)

text \<open>
  C4, as the code has it. \<open>Phone_init v\<close> succeeds exactly when \<open>v\<close> has 10 characters and
  \<^verbatim>\<open>str.isdigit\<close> accepts each of them, that is, each is a decimal digit or one of the
  superscript digits; every other string raises \<^verbatim>\<open>ValueError\<close>. In particular every string
  of exactly 10 decimal digits is accepted.
\<close>

theorem Phone_init_isdigit:
  "Phone_init v =
     (if length v = 10 \<and> list_all (\<lambda>c. decimal_char c \<or> superscript_digit c) v
      then Inr (Phone v)
      else Inl (ValueError ''Phone number must contain exactly 10 digits.''))
   \<and> (ten_decimal_digits v \<longrightarrow> Phone_init v = Inr (Phone v))"
  by (auto simp: Phone_init_cases isdigit_char_def ten_decimal_digits_def list_all_iff)

theorem Phone_init_isdigit_witness:
  "ten_decimal_digits ''0123456789'' \<and> Phone_init ''0123456789'' = Inr (Phone ''0123456789'')
   \<and> Phone_init ''12345'' = Inl (ValueError ''Phone number must contain exactly 10 digits.'')"
  using Phone_init_isdigit [of "''0123456789''"] Phone_init_isdigit [of "''12345''"]
  by (simp add: ten_decimal_digits_def decimal_char_def)

text \<open>
  C4 as stated fails: the string of ten superscript twos (U+00B2) is no string of decimal
  digits, and \<open>Phone_init\<close> accepts it.
\<close>

theorem Phone_init_superscript_counterexample:
  "Phone_init [CHR 0xB2, CHR 0xB2, CHR 0xB2, CHR 0xB2, CHR 0xB2, CHR 0xB2, CHR 0xB2, CHR 0xB2, CHR 0xB2, CHR 0xB2]
     = Inr (Phone [CHR 0xB2, CHR 0xB2, CHR 0xB2, CHR 0xB2, CHR 0xB2, CHR 0xB2, CHR 0xB2, CHR 0xB2, CHR 0xB2, CHR 0xB2])
   \<and> \<not> ten_decimal_digits [CHR 0xB2, CHR 0xB2, CHR 0xB2, CHR 0xB2, CHR 0xB2, CHR 0xB2, CHR 0xB2, CHR 0xB2, CHR 0xB2, CHR 0xB2]"
  by (simp add: Phone_init_cases isdigit_char_def ten_decimal_digits_def decimal_char_def
      superscript_digit_def)


section \<open>Record operations\<close>

text \<open>
  C6. When \<open>old\<close> is the value of no phone of the record, \<open>edit_phone\<close> raises the
  \<^verbatim>\<open>ValueError\<close> "Old phone not found." and the record after the call is the record before
  it, whatever \<open>new\<close> is.
\<close>

theorem edit_phone_absent:
  "old \<notin> phone_value ` set (phones r) \<Longrightarrow>
     edit_phone r old new = (Inl (ValueError ''Old phone not found.''), r)"
  by (simp add: edit_phone_def find_phone_def find_phone_loop_None)

theorem edit_phone_absent_witness:
  "''5555555555'' \<notin> phone_value ` set (phones \<lparr>name = Name ''Ann'', phones = [Phone ''0123456789'', Phone ''9876543210''], birthday = None\<rparr>)
   \<and> edit_phone \<lparr>name = Name ''Ann'', phones = [Phone ''0123456789'', Phone ''9876543210''], birthday = None\<rparr>
        ''5555555555'' ''1111111111''
      = (Inl (ValueError ''Old phone not found.''),
         \<lparr>name = Name ''Ann'', phones = [Phone ''0123456789'', Phone ''9876543210''], birthday = None\<rparr>)"
  using edit_phone_absent [of "''5555555555''"
      "\<lparr>name = Name ''Ann'', phones = [Phone ''0123456789'', Phone ''9876543210''], birthday = None\<rparr>"
      "''1111111111''"]
  by simp

lemma phones_valid_remove1:
  "list_all P xs \<Longrightarrow> list_all P (remove1 x xs)"
  by (induction xs) auto

lemma phones_valid_update:
  "list_all P xs \<Longrightarrow> P x \<Longrightarrow> list_all P (xs[i := x])"
  by (induction xs arbitrary: i) (auto split: nat.splits)

text \<open>
  C8, as the code has it. The invariant is \<open>phones_valid\<close>: every phone of the record passes
  \<open>validate\<close>, so it has 10 characters, each a decimal digit or a superscript digit. The
  constructor returns only such phones, a new record has the invariant, and \<open>add_phone\<close>,
  \<open>remove_phone\<close>, \<open>edit_phone\<close> and \<open>add_birthday\<close> keep it, whether they return or raise.
\<close>

theorem phones_valid_invariant:
  "(Phone_init v = Inr p \<longrightarrow> validate (phone_value p))
   \<and> phones_valid (Record_init n)
   \<and> (phones_valid r \<longrightarrow>
        phones_valid (snd (add_phone r v)) \<and> phones_valid (snd (remove_phone r v))
        \<and> phones_valid (snd (edit_phone r old new)) \<and> phones_valid (snd (add_birthday r s)))
   \<and> (validate v \<longleftrightarrow> length v = 10 \<and> list_all (\<lambda>c. decimal_char c \<or> superscript_digit c) v)"
proof -
  have init: "Phone_init v = Inr p \<longrightarrow> validate (phone_value p)" for v p
    using Phone_init_valid by blast
  have new: "phones_valid (Record_init n)"
    by (simp add: phones_valid_def Record_init_def)
  have add: "phones_valid (snd (add_phone r v))" if "phones_valid r"
    using that init [of v] by (auto simp: add_phone_def phones_valid_def split: sum.splits)
  have remove: "phones_valid (snd (remove_phone r v))" if "phones_valid r"
    using that by (auto simp: remove_phone_def phones_valid_def phones_valid_remove1 split: option.splits)
  have edit: "phones_valid (snd (edit_phone r old new))" if "phones_valid r"
    using that init [of new]
    by (auto simp: edit_phone_def phones_valid_def phones_valid_update split: option.splits sum.splits)
  have bday: "phones_valid (snd (add_birthday r s))" if "phones_valid r"
    using that by (auto simp: add_birthday_def phones_valid_def split: sum.splits)
  have val: "validate v \<longleftrightarrow> length v = 10 \<and> list_all (\<lambda>c. decimal_char c \<or> superscript_digit c) v"
    by (auto simp: validate_def isdigit_def isdigit_char_def list_all_iff)
  show ?thesis using init new add remove edit bday val by blast
qed

theorem phones_valid_invariant_witness:
  "phones_valid (Record_init ''Ann'')
   \<and> phones_valid (snd (add_phone (Record_init ''Ann'') ''0123456789''))
   \<and> phones (snd (add_phone (Record_init ''Ann'') ''0123456789'')) = [Phone ''0123456789'']
   \<and> Phone_init ''0123456789'' = Inr (Phone ''0123456789'')
   \<and> validate ''0123456789''"
  using phones_valid_invariant [of "''0123456789''" "Phone ''0123456789''" "''Ann''" "Record_init ''Ann''"]
  by (simp add: add_phone_def Phone_init_cases isdigit_char_def decimal_char_def Record_init_def)

text \<open>
  C8 as stated fails: after \<open>add_phone\<close> with ten superscript twos the record holds a phone
  that is no string of 10 decimal digits.
\<close>

theorem add_phone_superscript_counterexample:
  "add_phone (Record_init ''Ann'')
      [CHR 0xB2, CHR 0xB2, CHR 0xB2, CHR 0xB2, CHR 0xB2, CHR 0xB2, CHR 0xB2, CHR 0xB2, CHR 0xB2, CHR 0xB2]
     = (Inr (), \<lparr>name = Name ''Ann'',
          phones = [Phone [CHR 0xB2, CHR 0xB2, CHR 0xB2, CHR 0xB2, CHR 0xB2, CHR 0xB2, CHR 0xB2, CHR 0xB2, CHR 0xB2, CHR 0xB2]],
          birthday = None\<rparr>)
   \<and> \<not> ten_decimal_digits
         (phone_value (Phone [CHR 0xB2, CHR 0xB2, CHR 0xB2, CHR 0xB2, CHR 0xB2, CHR 0xB2, CHR 0xB2, CHR 0xB2, CHR 0xB2, CHR 0xB2]))"
  by (simp add: add_phone_def Record_init_def Phone_init_cases isdigit_char_def
      ten_decimal_digits_def decimal_char_def superscript_digit_def)


section \<open>AddressBook.add\_record\<close>

lemma update_twice:
  "AList.update k v2 (AList.update k v1 al) = AList.update k v2 al"
  by (induction al) auto

text \<open>
  C7. After \<open>add_record\<close> the book maps the record's name to that record and every other name
  as before. Two calls with records of the same name leave the book that the second call
  alone leaves: nothing of the first record remains, so the name is mapped to the second
  record with the second record's phones.
\<close>

theorem add_record_overwrites:
  "find_record (add_record b r) (name_value (name r)) = Some r
   \<and> (k \<noteq> name_value (name r) \<longrightarrow> find_record (add_record b r) k = find_record b k)
   \<and> (name r1 = name r2 \<longrightarrow>
        add_record (add_record b r1) r2 = add_record b r2
        \<and> find_record (add_record (add_record b r1) r2) (name_value (name r2)) = Some r2
        \<and> map_option phones (find_record (add_record (add_record b r1) r2) (name_value (name r2)))
            = Some (phones r2))"
  by (simp add: find_record_def add_record_def update_twice update_conv')

theorem add_record_overwrites_witness:
  "name \<lparr>name = Name ''Ann'', phones = [Phone ''0123456789''], birthday = None\<rparr>
     = name \<lparr>name = Name ''Ann'', phones = [Phone ''9876543210''], birthday = None\<rparr>
   \<and> add_record (add_record [] \<lparr>name = Name ''Ann'', phones = [Phone ''0123456789''], birthday = None\<rparr>)
        \<lparr>name = Name ''Ann'', phones = [Phone ''9876543210''], birthday = None\<rparr>
      = [(''Ann'', \<lparr>name = Name ''Ann'', phones = [Phone ''9876543210''], birthday = None\<rparr>)]
   \<and> find_record (add_record (add_record [] \<lparr>name = Name ''Ann'', phones = [Phone ''0123456789''], birthday = None\<rparr>)
        \<lparr>name = Name ''Ann'', phones = [Phone ''9876543210''], birthday = None\<rparr>) ''Ann''
      = Some \<lparr>name = Name ''Ann'', phones = [Phone ''9876543210''], birthday = None\<rparr>"
  using add_record_overwrites [of "[]"
      "\<lparr>name = Name ''Ann'', phones = [Phone ''9876543210''], birthday = None\<rparr>" "''Bob''"
      "\<lparr>name = Name ''Ann'', phones = [Phone ''0123456789''], birthday = None\<rparr>"
      "\<lparr>name = Name ''Ann'', phones = [Phone ''9876543210''], birthday = None\<rparr>"]
  by (simp add: add_record_def)

end
